theory Spec2Isabelle
  imports Main "HOL-Library.Word"
begin

section \<open>Interpreter blocks (clang/lib/AST/Interp/InterpBlock.h)\<close>

text \<open>
  A block is one allocation: a header of type \<open>Block\<close>, then the metadata, then the data.
  Addresses are natural numbers (pointer arithmetic that leaves an allocation is undefined
  in C++, so no wrap-around is modelled); the header fields are kept in a typed heap
  \<open>blocks\<close>, the storage after the header in a byte heap \<open>bytes\<close>. Descriptors are
  static metadata: a table \<open>D\<close> maps the address held in \<open>Block::Desc\<close> to the descriptor.
\<close>

type_synonym addr = nat
type_synonym byte = "8 word"
type_synonym memory = "addr \<Rightarrow> byte"

subsection \<open>Block\<close>

record Block =
  Pointers :: "addr option"
  DeclID :: "32 word option"
  IsStatic :: bool
  IsExtern :: bool
  IsDead :: bool
  IsInitialized :: bool
  Desc :: addr

text \<open>\<open>Block(const std::optional<unsigned> &DeclID, Descriptor *Desc, bool IsStatic, bool IsExtern)\<close>\<close>

definition Block_ctor :: "32 word option \<Rightarrow> addr \<Rightarrow> bool \<Rightarrow> bool \<Rightarrow> Block" where
  "Block_ctor declID desc isStatic isExtern =
     \<lparr>Pointers = None, DeclID = declID, IsStatic = isStatic, IsExtern = isExtern,
      IsDead = False, IsInitialized = False, Desc = desc\<rparr>"

text \<open>\<open>Block(Descriptor *Desc, bool IsStatic, bool IsExtern)\<close>: \<open>DeclID((unsigned)-1)\<close>\<close>

definition Block_ctor_nodecl :: "addr \<Rightarrow> bool \<Rightarrow> bool \<Rightarrow> Block" where
  "Block_ctor_nodecl desc isStatic isExtern =
     \<lparr>Pointers = None, DeclID = Some (- 1), IsStatic = isStatic, IsExtern = isExtern,
      IsDead = False, IsInitialized = False, Desc = desc\<rparr>"

text \<open>
  The protected \<open>Block(Descriptor *Desc, bool IsExtern, bool IsStatic, bool IsDead)\<close>:
  the initialiser list is \<open>IsStatic(IsStatic), IsExtern(IsExtern), IsDead(true), Desc(Desc)\<close>,
  so the last parameter is not read and \<open>DeclID\<close> keeps its default, the empty optional.
\<close>

definition Block_ctor_dead :: "addr \<Rightarrow> bool \<Rightarrow> bool \<Rightarrow> bool \<Rightarrow> Block" where
  "Block_ctor_dead desc isExtern isStatic isDead =
     \<lparr>Pointers = None, DeclID = None, IsStatic = isStatic, IsExtern = isExtern,
      IsDead = True, IsInitialized = False, Desc = desc\<rparr>"

subsection \<open>Reference nodes and relocated blocks\<close>

text \<open>
  Modelled from the spec: the class \<open>Pointer\<close> (Pointer.h) is not part of the sources
  read here. A reference node holds a back-reference to the block it targets and the two
  links of the intrusive chain whose head is \<open>Block::Pointers\<close>.
\<close>

record Pointer =
  Pointee :: "addr option"
  PtrPrev :: "addr option"
  PtrNext :: "addr option"

text \<open>
  \<open>DeadBlock\<close>: the links \<open>Prev\<close> and \<open>Next\<close>. The member \<open>Root\<close> is a reference to the
  driver's root variable, kept once in the state as \<open>Root\<close>; the embedded block \<open>B\<close> is
  the entry of \<open>blocks\<close> at the address \<open>addr_B\<close> of the member.
\<close>

record DeadBlock =
  Prev :: "addr option"
  Next :: "addr option"

record state =
  bytes :: memory
  blocks :: "addr \<Rightarrow> Block"
  ptrs :: "addr \<Rightarrow> Pointer"
  deads :: "addr \<Rightarrow> DeadBlock"
  Root :: "addr option"
  heap :: "addr set"

subsection \<open>Descriptor (Descriptor.h, consumed only)\<close>

text \<open>
  \<open>BlockCtorFn\<close> takes (block, data pointer, IsConst, IsMutable, IsActive, descriptor),
  \<open>BlockDtorFn\<close> takes (block, data pointer, descriptor). Both return \<open>void\<close>: what a
  callback does is its effect on the state.
\<close>

type_synonym BlockCtorFn = "addr \<Rightarrow> addr \<Rightarrow> bool \<Rightarrow> bool \<Rightarrow> bool \<Rightarrow> addr \<Rightarrow> state \<Rightarrow> state"
type_synonym BlockDtorFn = "addr \<Rightarrow> addr \<Rightarrow> addr \<Rightarrow> state \<Rightarrow> state"

text \<open>
  Modelled from the spec: the class \<open>Descriptor\<close> is declared in Descriptor.h, which is
  not part of the sources read here. The record holds what InterpBlock.h reads from it:
  the results of \<open>getAllocSize()\<close>, \<open>getMetadataSize()\<close> and \<open>getSize()\<close> (all
  \<open>unsigned\<close>), the three flags and the two optional callbacks.
\<close>

record Descriptor =
  getAllocSize :: "32 word"
  getMetadataSize :: "32 word"
  getDataSize :: "32 word"
  IsTemporary :: bool
  IsConst :: bool
  IsMutable :: bool
  CtorFn :: "BlockCtorFn option"
  DtorFn :: "BlockDtorFn option"

type_synonym descriptors = "addr \<Rightarrow> Descriptor"

text \<open>
  \<open>sizeof(Block)\<close> and the offset of the member \<open>B\<close> in \<open>DeadBlock\<close> under the LP64 data
  model: a pointer, an optional of unsigned, four bools and padding, a pointer; before
  \<open>B\<close> a reference and two pointers. No theorem below depends on the values.
\<close>

definition sizeof_Block :: nat where
  "sizeof_Block = 32"

definition offsetof_B :: nat where
  "offsetof_B = 24"

definition addr_B :: "addr \<Rightarrow> addr" where
  "addr_B d = d + offsetof_B"

subsection \<open>Accessors\<close>

definition getDescriptor :: "state \<Rightarrow> addr \<Rightarrow> addr" where
  "getDescriptor s this = Desc (blocks s this)"

definition hasPointers :: "state \<Rightarrow> addr \<Rightarrow> bool" where
  "hasPointers s this = (Pointers (blocks s this) \<noteq> None)"

definition isExtern :: "state \<Rightarrow> addr \<Rightarrow> bool" where
  "isExtern s this = IsExtern (blocks s this)"

definition isStatic :: "state \<Rightarrow> addr \<Rightarrow> bool" where
  "isStatic s this = IsStatic (blocks s this)"

definition isTemporary :: "descriptors \<Rightarrow> state \<Rightarrow> addr \<Rightarrow> bool" where
  "isTemporary D s this = IsTemporary (D (Desc (blocks s this)))"

definition getSize :: "descriptors \<Rightarrow> state \<Rightarrow> addr \<Rightarrow> 32 word" where
  "getSize D s this = getAllocSize (D (Desc (blocks s this)))"

definition getDeclID :: "state \<Rightarrow> addr \<Rightarrow> 32 word option" where
  "getDeclID s this = DeclID (blocks s this)"

definition isInitialized :: "state \<Rightarrow> addr \<Rightarrow> bool" where
  "isInitialized s this = IsInitialized (blocks s this)"

text \<open>\<open>reinterpret_cast<std::byte *>(this) + sizeof(Block)\<close>\<close>

definition rawData :: "addr \<Rightarrow> addr" where
  "rawData this = this + sizeof_Block"

text \<open>\<open>size_t DataOffset = Desc->getMetadataSize(); return rawData() + DataOffset;\<close>\<close>

definition data :: "descriptors \<Rightarrow> state \<Rightarrow> addr \<Rightarrow> addr" where
  "data D s this =
     (let DataOffset = unat (getMetadataSize (D (Desc (blocks s this))))
      in rawData this + DataOffset)"

subsection \<open>Construction and destruction of the contents\<close>

text \<open>\<open>std::memset(p, v, n)\<close>: the bytes \<open>p, ..., p + n - 1\<close> are written in turn.\<close>

fun memset :: "memory \<Rightarrow> addr \<Rightarrow> byte \<Rightarrow> nat \<Rightarrow> memory" where
  "memset m p v 0 = m"
| "memset m p v (Suc n) = memset (m(p := v)) (Suc p) v n"

text \<open>
  \<^verbatim>\<open>std::memset(rawData(), 0, Desc->getAllocSize());
  if (Desc->CtorFn) Desc->CtorFn(this, data(), Desc->IsConst, Desc->IsMutable, true, Desc);
  IsInitialized = true;\<close>
\<close>

definition invokeCtor :: "descriptors \<Rightarrow> state \<Rightarrow> addr \<Rightarrow> state" where
  "invokeCtor D s this =
     (let d = D (Desc (blocks s this));
          s1 = s\<lparr>bytes := memset (bytes s) (rawData this) 0 (unat (getAllocSize d))\<rparr>;
          s2 = (case CtorFn d of
                  None \<Rightarrow> s1
                | Some f \<Rightarrow> f this (data D s1 this) (IsConst d) (IsMutable d) True
                              (Desc (blocks s1 this)) s1)
      in s2\<lparr>blocks := (blocks s2)(this := (blocks s2 this)\<lparr>IsInitialized := True\<rparr>)\<rparr>)"

text \<open>
  \<^verbatim>\<open>if (Desc->DtorFn) Desc->DtorFn(this, data(), Desc);
  IsInitialized = false;\<close>
\<close>

definition invokeDtor :: "descriptors \<Rightarrow> state \<Rightarrow> addr \<Rightarrow> state" where
  "invokeDtor D s this =
     (let d = D (Desc (blocks s this));
          s1 = (case DtorFn d of
                  None \<Rightarrow> s
                | Some f \<Rightarrow> f this (data D s this) (Desc (blocks s this)) s)
      in s1\<lparr>blocks := (blocks s1)(this := (blocks s1 this)\<lparr>IsInitialized := False\<rparr>)\<rparr>)"

text \<open>
  The header fields of a block are protected members, and no member function declared
  in InterpBlock.h assigns \<open>IsStatic\<close>, \<open>IsExtern\<close> or \<open>IsDead\<close> after construction. The
  contract of a callback towards the block \<open>b\<close>: it leaves the storage-class flags and
  the dead flag of \<open>b\<close> as they are (\<open>keeps_flags\<close>), and it does not construct or
  destroy \<open>b\<close> behind the caller's back (\<open>keeps_initialized\<close>). \<open>callbacks_keep P D\<close>
  says that every callback of the table \<open>D\<close>, with any arguments, meets the contract \<open>P\<close>.
\<close>

definition keeps_flags :: "addr \<Rightarrow> (state \<Rightarrow> state) \<Rightarrow> bool" where
  "keeps_flags b f =
     (\<forall>s. IsStatic (blocks (f s) b) = IsStatic (blocks s b) \<and>
          IsExtern (blocks (f s) b) = IsExtern (blocks s b) \<and>
          IsDead (blocks (f s) b) = IsDead (blocks s b))"

definition keeps_initialized :: "addr \<Rightarrow> (state \<Rightarrow> state) \<Rightarrow> bool" where
  "keeps_initialized b f = (\<forall>s. IsInitialized (blocks (f s) b) = IsInitialized (blocks s b))"

definition callbacks_keep :: "((state \<Rightarrow> state) \<Rightarrow> bool) \<Rightarrow> descriptors \<Rightarrow> bool" where
  "callbacks_keep P D =
     (\<forall>d. (case CtorFn (D d) of
                None \<Rightarrow> True
              | Some f \<Rightarrow> \<forall>blk dat c m a dp. P (f blk dat c m a dp)) \<and>
           (case DtorFn (D d) of
                None \<Rightarrow> True
              | Some f \<Rightarrow> \<forall>blk dat dp. P (f blk dat dp)))"

subsection \<open>The chain of reference nodes\<close>

text \<open>
  A doubly linked, null-terminated list in the heap: \<open>dll prv nxt b h xs\<close> holds when the
  nodes \<open>xs\<close> are met in this order from the head \<open>h\<close> along \<open>nxt\<close>, the back link of
  the first node is \<open>b\<close> and the back link of every other node is its predecessor.
\<close>

fun dll :: "(addr \<Rightarrow> addr option) \<Rightarrow> (addr \<Rightarrow> addr option) \<Rightarrow>
            addr option \<Rightarrow> addr option \<Rightarrow> addr list \<Rightarrow> bool" where
  "dll prv nxt b h [] = (h = None)"
| "dll prv nxt b h (x # xs) = (h = Some x \<and> prv x = b \<and> dll prv nxt (Some x) (nxt x) xs)"

text \<open>The chain of the block at \<open>this\<close> is the list \<open>xs\<close> of reference nodes.\<close>

definition chain :: "state \<Rightarrow> addr \<Rightarrow> addr list \<Rightarrow> bool" where
  "chain s this xs =
     dll (\<lambda>p. PtrPrev (ptrs s p)) (\<lambda>p. PtrNext (ptrs s p)) None (Pointers (blocks s this)) xs"

text \<open>
  Modelled from the spec: \<open>Block::addPointer\<close> is declared in InterpBlock.h and defined in
  InterpBlock.cpp, which is not part of the sources read here. Attach inserts the node
  into the intrusive chain, at its head:
  \<^verbatim>\<open>if (Pointers) Pointers->Prev = P;  P->Next = Pointers;  P->Prev = nullptr;  Pointers = P;\<close>
\<close>

definition addPointer :: "state \<Rightarrow> addr \<Rightarrow> addr \<Rightarrow> state" where
  "addPointer s this P =
     (let h = Pointers (blocks s this);
          ps1 = (case h of
                   None \<Rightarrow> ptrs s
                 | Some q \<Rightarrow> (ptrs s)(q := (ptrs s q)\<lparr>PtrPrev := Some P\<rparr>));
          ps2 = ps1(P := (ps1 P)\<lparr>PtrPrev := None, PtrNext := h\<rparr>)
      in s\<lparr>ptrs := ps2,
            blocks := (blocks s)(this := (blocks s this)\<lparr>Pointers := Some P\<rparr>)\<rparr>)"

text \<open>
  Modelled from the spec: \<open>Block::removePointer\<close> (InterpBlock.cpp) is missing. Detach
  removes the node from the chain, patching the head and the neighbours:
  \<^verbatim>\<open>if (Pointers == P) Pointers = P->Next;
  if (P->Prev) P->Prev->Next = P->Next;  if (P->Next) P->Next->Prev = P->Prev;\<close>
\<close>

definition removePointer :: "state \<Rightarrow> addr \<Rightarrow> addr \<Rightarrow> state" where
  "removePointer s this P =
     (let h = (if Pointers (blocks s this) = Some P then PtrNext (ptrs s P)
               else Pointers (blocks s this));
          ps1 = (case PtrPrev (ptrs s P) of
                   None \<Rightarrow> ptrs s
                 | Some q \<Rightarrow> (ptrs s)(q := (ptrs s q)\<lparr>PtrNext := PtrNext (ptrs s P)\<rparr>));
          ps2 = (case PtrNext (ps1 P) of
                   None \<Rightarrow> ps1
                 | Some n \<Rightarrow> ps1(n := (ps1 n)\<lparr>PtrPrev := PtrPrev (ps1 P)\<rparr>))
      in s\<lparr>ptrs := ps2,
            blocks := (blocks s)(this := (blocks s this)\<lparr>Pointers := h\<rparr>)\<rparr>)"

text \<open>
  Modelled from the spec: \<open>Block::replacePointer\<close> (InterpBlock.cpp) is missing. Retarget
  substitutes \<open>New\<close> for \<open>Old\<close> in place, so that \<open>New\<close> takes the position of \<open>Old\<close> and
  \<open>Old\<close> is left outside the chain:
  \<^verbatim>\<open>New->Prev = Old->Prev;  if (New->Prev) New->Prev->Next = New;
  New->Next = Old->Next;  if (New->Next) New->Next->Prev = New;
  if (Pointers == Old) Pointers = New;  Old->Prev = nullptr;  Old->Next = nullptr;\<close>
\<close>

definition replacePointer :: "state \<Rightarrow> addr \<Rightarrow> addr \<Rightarrow> addr \<Rightarrow> state" where
  "replacePointer s this Old New =
     (let ps0 = ptrs s;
          ps1 = ps0(New := (ps0 New)\<lparr>PtrPrev := PtrPrev (ps0 Old)\<rparr>);
          ps2 = (case PtrPrev (ps1 New) of
                   None \<Rightarrow> ps1
                 | Some q \<Rightarrow> ps1(q := (ps1 q)\<lparr>PtrNext := Some New\<rparr>));
          ps3 = ps2(New := (ps2 New)\<lparr>PtrNext := PtrNext (ps2 Old)\<rparr>);
          ps4 = (case PtrNext (ps3 New) of
                   None \<Rightarrow> ps3
                 | Some n \<Rightarrow> ps3(n := (ps3 n)\<lparr>PtrPrev := Some New\<rparr>));
          h = (if Pointers (blocks s this) = Some Old then Some New
               else Pointers (blocks s this));
          ps5 = ps4(Old := (ps4 Old)\<lparr>PtrPrev := None, PtrNext := None\<rparr>)
      in s\<lparr>ptrs := ps5,
            blocks := (blocks s)(this := (blocks s this)\<lparr>Pointers := h\<rparr>)\<rparr>)"

text \<open>The chain after retarget: \<open>new\<close> stands wherever \<open>old\<close> stood.\<close>

definition subst_node :: "addr \<Rightarrow> addr \<Rightarrow> addr list \<Rightarrow> addr list" where
  "subst_node old new xs = map (\<lambda>z. if z = old then new else z) xs"

text \<open>
  Sequences of chain mutations of one block, the list of nodes each of them leaves, and
  the caller's obligations: attach a node that is not in the chain, detach or retarget
  one that is, retarget to one that is not.
\<close>

datatype chain_op = Attach addr | Detach addr | Retarget addr addr

fun chain_step :: "addr \<Rightarrow> state \<Rightarrow> chain_op \<Rightarrow> state" where
  "chain_step this s (Attach P) = addPointer s this P"
| "chain_step this s (Detach P) = removePointer s this P"
| "chain_step this s (Retarget Old New) = replacePointer s this Old New"

fun chain_abs :: "addr list \<Rightarrow> chain_op \<Rightarrow> addr list" where
  "chain_abs xs (Attach P) = P # xs"
| "chain_abs xs (Detach P) = remove1 P xs"
| "chain_abs xs (Retarget Old New) = subst_node Old New xs"

fun chain_pre :: "addr list \<Rightarrow> chain_op \<Rightarrow> bool" where
  "chain_pre xs (Attach P) = (P \<notin> set xs)"
| "chain_pre xs (Detach P) = (P \<in> set xs)"
| "chain_pre xs (Retarget Old New) = (Old \<in> set xs \<and> New \<notin> set xs)"

fun chain_ok :: "addr list \<Rightarrow> chain_op list \<Rightarrow> bool" where
  "chain_ok xs [] = True"
| "chain_ok xs (c # cs) = (chain_pre xs c \<and> chain_ok (chain_abs xs c) cs)"

subsection \<open>Relocated blocks\<close>

text \<open>\<open>std::memcpy(dst, src, n)\<close>: byte \<open>i\<close> of the source, as it was, goes to byte \<open>i\<close>
  of the destination.\<close>

fun copy_bytes :: "memory \<Rightarrow> memory \<Rightarrow> addr \<Rightarrow> addr \<Rightarrow> nat \<Rightarrow> memory" where
  "copy_bytes m0 m dst src 0 = m"
| "copy_bytes m0 m dst src (Suc n) = copy_bytes m0 (m(dst := m0 src)) (Suc dst) (Suc src) n"

definition memcpy :: "memory \<Rightarrow> addr \<Rightarrow> addr \<Rightarrow> nat \<Rightarrow> memory" where
  "memcpy m dst src n = copy_bytes m m dst src n"

text \<open>
  Modelled from the spec: the loop of the missing constructor of \<open>DeadBlock\<close> that
  retargets every reference node of the chain to the embedded block:
  \<^verbatim>\<open>for (Pointer *P = Blk->Pointers; P; P = P->Next) P->Pointee = &B;\<close>
  The loop follows the links of the heap, so it need not end: \<open>None\<close> is a run that
  does not return.
\<close>

partial_function (option) transfer_pointers ::
    "(addr \<Rightarrow> Pointer) \<Rightarrow> addr option \<Rightarrow> addr \<Rightarrow> (addr \<Rightarrow> Pointer) option" where
  "transfer_pointers ps P tgt =
     (case P of
        None \<Rightarrow> Some ps
      | Some p \<Rightarrow> transfer_pointers (ps(p := (ps p)\<lparr>Pointee := Some tgt\<rparr>)) (PtrNext (ps p)) tgt)"

text \<open>
  The global list of relocated blocks: the nodes \<open>ds\<close>, linked both ways from \<open>Root\<close>,
  each of them allocated storage.
\<close>

definition deadlist :: "state \<Rightarrow> addr list \<Rightarrow> bool" where
  "deadlist s ds =
     (dll (\<lambda>d. Prev (deads s d)) (\<lambda>d. Next (deads s d)) None (Root s) ds \<and> set ds \<subseteq> heap s)"

text \<open>
  Modelled from the spec: the constructor \<open>DeadBlock::DeadBlock(DeadBlock *&Root, Block *Blk)\<close>
  is declared in InterpBlock.h and defined in InterpBlock.cpp, which is not part of the
  sources read here. Given newly allocated storage \<open>this\<close>, it copies the header of the
  source block into the embedded block (built dead by the protected constructor of
  \<open>Block\<close>, chain head included) and the metadata and data behind it, links the node at
  the head of the global list and retargets every reference node of the chain to the
  embedded block.
\<close>

definition DeadBlock_ctor :: "descriptors \<Rightarrow> state \<Rightarrow> addr \<Rightarrow> addr \<Rightarrow> state option" where
  "DeadBlock_ctor D s this Blk =
     (let blk = blocks s Blk;
          B = (Block_ctor_dead (Desc blk) (IsExtern blk) (IsStatic blk) True)
                \<lparr>Pointers := Pointers blk, DeclID := DeclID blk,
                 IsInitialized := IsInitialized blk\<rparr>;
          m = memcpy (bytes s) (rawData (addr_B this)) (rawData Blk)
                (unat (getAllocSize (D (Desc blk))));
          ds1 = (case Root s of
                   None \<Rightarrow> deads s
                 | Some r \<Rightarrow> (deads s)(r := (deads s r)\<lparr>Prev := Some this\<rparr>));
          ds2 = ds1(this := \<lparr>Prev = None, Next = Root s\<rparr>)
      in case transfer_pointers (ptrs s) (Pointers blk) (addr_B this) of
           None \<Rightarrow> None
         | Some ps \<Rightarrow>
             Some (s\<lparr>bytes := m, blocks := (blocks s)(addr_B this := B), ptrs := ps,
                     deads := ds2, Root := Some this, heap := insert this (heap s)\<rparr>))"

text \<open>
  Modelled from the spec: \<open>DeadBlock::free\<close> (InterpBlock.cpp) is missing. Release unlinks
  the node from the global list, patching the neighbours and the root, and reclaims the
  storage:
  \<^verbatim>\<open>if (Prev) Prev->Next = Next;  if (Next) Next->Prev = Prev;
  if (Root == this) Root = Next;  std::free(this);\<close>
\<close>

definition DeadBlock_free :: "state \<Rightarrow> addr \<Rightarrow> state" where
  "DeadBlock_free s this =
     (let ds0 = deads s;
          ds1 = (case Prev (ds0 this) of
                   None \<Rightarrow> ds0
                 | Some p \<Rightarrow> ds0(p := (ds0 p)\<lparr>Next := Next (ds0 this)\<rparr>));
          ds2 = (case Next (ds1 this) of
                   None \<Rightarrow> ds1
                 | Some n \<Rightarrow> ds1(n := (ds1 n)\<lparr>Prev := Prev (ds1 this)\<rparr>));
          r = (if Root s = Some this then Next (ds2 this) else Root s)
      in s\<lparr>deads := ds2, Root := r, heap := heap s - {this}\<rparr>)"

subsection \<open>Sequences of operations\<close>

datatype op =
    InvokeCtor addr
  | InvokeDtor addr
  | AddPointer addr addr
  | RemovePointer addr addr
  | ReplacePointer addr addr addr
  | Relocate addr addr
  | Free addr

fun step :: "descriptors \<Rightarrow> state \<Rightarrow> op \<Rightarrow> state option" where
  "step D s (InvokeCtor b) = Some (invokeCtor D s b)"
| "step D s (InvokeDtor b) = Some (invokeDtor D s b)"
| "step D s (AddPointer b P) = Some (addPointer s b P)"
| "step D s (RemovePointer b P) = Some (removePointer s b P)"
| "step D s (ReplacePointer b Old New) = Some (replacePointer s b Old New)"
| "step D s (Relocate d Blk) = DeadBlock_ctor D s d Blk"
| "step D s (Free d) = Some (DeadBlock_free s d)"

fun run :: "descriptors \<Rightarrow> state \<Rightarrow> op list \<Rightarrow> state option" where
  "run D s [] = Some s"
| "run D s (x # xs) = (case step D s x of None \<Rightarrow> None | Some s' \<Rightarrow> run D s' xs)"

text \<open>The operation builds a new block header at the address \<open>b\<close>.\<close>

fun constructs :: "op \<Rightarrow> addr \<Rightarrow> bool" where
  "constructs (Relocate d Blk) b = (addr_B d = b)"
| "constructs _ b = False"

text \<open>
  The last construct or destroy call on the block \<open>b\<close> in a sequence of operations:
  \<open>Some True\<close> for construct, \<open>Some False\<close> for destroy, \<open>None\<close> when there is neither.
\<close>

fun lifecycle :: "addr \<Rightarrow> op \<Rightarrow> bool option" where
  "lifecycle b (InvokeCtor x) = (if x = b then Some True else None)"
| "lifecycle b (InvokeDtor x) = (if x = b then Some False else None)"
| "lifecycle b _ = None"

fun last_lifecycle :: "addr \<Rightarrow> op list \<Rightarrow> bool option" where
  "last_lifecycle b [] = None"
| "last_lifecycle b (x # xs) =
     (case last_lifecycle b xs of None \<Rightarrow> lifecycle b x | Some v \<Rightarrow> Some v)"

subsection \<open>A concrete state\<close>

text \<open>
  Two descriptors with 8 bytes of metadata and 24 bytes of data: one with neither callback,
  one whose construct callback writes 1 to the first data byte and whose destroy callback
  writes 255 there.
\<close>

definition example_desc :: Descriptor where
  "example_desc =
     \<lparr>getAllocSize = 32, getMetadataSize = 8, getDataSize = 24, IsTemporary = False,
      IsConst = False, IsMutable = False, CtorFn = None, DtorFn = None\<rparr>"

definition example_ctor :: BlockCtorFn where
  "example_ctor blk dat c m a dp s = s\<lparr>bytes := (bytes s)(dat := 1)\<rparr>"

definition example_dtor :: BlockDtorFn where
  "example_dtor blk dat dp s = s\<lparr>bytes := (bytes s)(dat := 255)\<rparr>"

definition example_descs :: descriptors where
  "example_descs =
     (\<lambda>a. example_desc)(8 := example_desc\<lparr>CtorFn := Some example_ctor, DtorFn := Some example_dtor\<rparr>)"

text \<open>
  A state whose storage holds the byte pattern \<open>0xAA\<close> everywhere; the block at 256 has
  the descriptor with callbacks, every other block the one without.
\<close>

definition example_state :: state where
  "example_state =
     \<lparr>bytes = (\<lambda>a. 0xAA),
      blocks = (\<lambda>a. Block_ctor None 0 False False)(256 := Block_ctor_nodecl 8 True False),
      ptrs = (\<lambda>a. \<lparr>Pointee = None, PtrPrev = None, PtrNext = None\<rparr>),
      deads = (\<lambda>a. \<lparr>Prev = None, Next = None\<rparr>),
      Root = None,
      heap = {}\<rparr>"

text \<open>
  The block at 64 of the concrete state, constructed (its storage reads 0) and with the
  reference nodes 1, 2 and 3 attached in this order.
\<close>

definition example_chain_state :: state where
  "example_chain_state =
     foldl (chain_step 64) (invokeCtor example_descs example_state 64)
       [Attach 1, Attach 2, Attach 3]"

text \<open>A global list of three relocated blocks without references.\<close>

definition example_dead_state :: state where
  "example_dead_state =
     example_state
       \<lparr>deads := (\<lambda>a. \<lparr>Prev = None, Next = None\<rparr>)
          (3000 := \<lparr>Prev = None, Next = Some 2000\<rparr>,
           2000 := \<lparr>Prev = Some 3000, Next = Some 1000\<rparr>,
           1000 := \<lparr>Prev = Some 2000, Next = None\<rparr>),
        Root := Some 3000,
        heap := {1000, 2000, 3000}\<rparr>"

text \<open>Sequences of operations on the concrete state.\<close>

definition example_ops :: "chain_op list" where
  "example_ops = [Attach 1, Attach 2, Retarget 1 3, Detach 2, Detach 3]"

definition example_lifecycle :: "op list" where
  "example_lifecycle =
     [InvokeCtor 64, AddPointer 64 1, InvokeCtor 256, InvokeDtor 64, InvokeCtor 64, InvokeDtor 256]"

definition example_run :: "op list" where
  "example_run =
     [InvokeCtor 64, InvokeCtor 256, AddPointer 64 1, AddPointer 64 2, Relocate 1000 64,
      RemovePointer 1024 2, InvokeDtor 64, RemovePointer 1024 1, InvokeDtor 1024, Free 1000,
      InvokeDtor 256]"


section \<open>Doubly linked lists in the heap\<close>

lemma dll_frame:
  "(\<And>z. z \<in> set xs \<Longrightarrow> prv' z = prv z \<and> nxt' z = nxt z) \<Longrightarrow>
   dll prv' nxt' b h xs = dll prv nxt b h xs"
  by (induction xs arbitrary: b h) auto

lemma dll_unique: "dll prv nxt b h xs \<Longrightarrow> dll prv nxt b' h ys \<Longrightarrow> xs = ys"
proof (induction xs arbitrary: b b' h ys)
  case Nil
  then show ?case by (cases ys) auto
next
  case (Cons x xs)
  then show ?case by (cases ys) auto
qed

lemma dll_head_notin_tail:
  assumes "dll prv nxt b (nxt x) xs"
  shows "x \<notin> set xs"
proof
  assume "x \<in> set xs"
  then obtain us vs where xs: "xs = us @ x # vs"
    by (auto simp: in_set_conv_decomp)
  have "\<And>b h. dll prv nxt b h (us @ x # vs) \<Longrightarrow> \<exists>b'. dll prv nxt b' (nxt x) vs"
    by (induction us) auto
  with assms xs obtain b' where "dll prv nxt b' (nxt x) vs" by blast
  with assms have "xs = vs" by (rule dll_unique)
  with xs show False by simp
qed

lemma dll_distinct: "dll prv nxt b h xs \<Longrightarrow> distinct xs"
  by (induction xs arbitrary: b h) (auto dest: dll_head_notin_tail)


lemma dll_next_mid:
  "dll prv nxt b h (pre @ x # post) \<Longrightarrow> nxt x = (case post of [] \<Rightarrow> None | n # _ \<Rightarrow> Some n)"
  by (induction pre arbitrary: b h) (auto split: list.splits)

lemma dll_prev_mid:
  "dll prv nxt b h (pre @ x # post) \<Longrightarrow> prv x = (if pre = [] then b else Some (last pre))"
  by (induction pre arbitrary: b h) auto

lemma dll_head: "dll prv nxt b h xs \<Longrightarrow> h = (case xs of [] \<Rightarrow> None | x # _ \<Rightarrow> Some x)"
  by (cases xs) auto

lemma dll_unlink_mid:
  assumes "dll prv nxt b h (pre @ x # post)"
    and "\<And>p. b = Some p \<Longrightarrow> p \<notin> set (pre @ x # post)"
  shows "dll (case nxt x of None \<Rightarrow> prv | Some n \<Rightarrow> prv(n := prv x))
             (case prv x of None \<Rightarrow> nxt | Some p \<Rightarrow> nxt(p := nxt x))
             b (if h = Some x then nxt x else h) (pre @ post)"
  using assms
proof (induction pre arbitrary: b h)
  case Nil
  then have h: "h = Some x" and px: "prv x = b" and tl: "dll prv nxt (Some x) (nxt x) post"
    by auto
  have xpost: "x \<notin> set post" using tl by (rule dll_head_notin_tail)
  have dpost: "distinct post" using tl by (rule dll_distinct)
  show ?case
  proof (cases post)
    case Nil
    with tl h show ?thesis by simp
  next
    case (Cons n zs)
    with tl have nx: "nxt x = Some n" and pn: "prv n = Some x"
      and zs: "dll prv nxt (Some n) (nxt n) zs" by auto
    have nzs: "n \<notin> set zs" using dpost Cons by simp
    have bn: "\<And>p. b = Some p \<Longrightarrow> p \<noteq> n \<and> p \<notin> set zs"
      using Nil.prems(2) Cons by auto
    define P where "P = (case nxt x of None \<Rightarrow> prv | Some n \<Rightarrow> prv(n := prv x))"
    define N where "N = (case prv x of None \<Rightarrow> nxt | Some p \<Rightarrow> nxt(p := nxt x))"
    have Pn: "P n = b" using nx px by (simp add: P_def)
    have Nn: "N n = nxt n" using px bn by (auto simp: N_def split: option.splits)
    have "dll P N (Some n) (nxt n) zs = dll prv nxt (Some n) (nxt n) zs"
    proof (rule dll_frame)
      fix z assume "z \<in> set zs"
      then have "z \<noteq> n" and "\<And>p. b = Some p \<Longrightarrow> z \<noteq> p" using nzs bn by auto
      then show "P z = prv z \<and> N z = nxt z"
        using nx px by (auto simp: P_def N_def split: option.splits)
    qed
    with zs have "dll P N (Some n) (N n) zs" using Nn by simp
    then have "dll P N b (Some n) (n # zs)" using Pn by simp
    then have "dll P N b (if h = Some x then nxt x else h) ([] @ post)"
      using h nx Cons by simp
    then show ?thesis unfolding P_def N_def .
  qed
next
  case (Cons y pre)
  then have h: "h = Some y" and py: "prv y = b"
    and tl: "dll prv nxt (Some y) (nxt y) (pre @ x # post)" by auto
  have dist: "distinct (y # pre @ x # post)"
    using dll_distinct [OF Cons.prems(1)] by simp
  have ih: "dll (case nxt x of None \<Rightarrow> prv | Some n \<Rightarrow> prv(n := prv x))
             (case prv x of None \<Rightarrow> nxt | Some p \<Rightarrow> nxt(p := nxt x))
             (Some y) (if nxt y = Some x then nxt x else nxt y) (pre @ post)"
    using tl dist by (intro Cons.IH) auto
  have nx: "nxt x = (case post of [] \<Rightarrow> None | n # _ \<Rightarrow> Some n)"
    using tl by (rule dll_next_mid)
  have px: "prv x = (if pre = [] then Some y else Some (last pre))"
    using tl by (rule dll_prev_mid)
  have ny: "nxt y = (case pre @ x # post of [] \<Rightarrow> None | z # _ \<Rightarrow> Some z)"
    using tl by (rule dll_head)
  have prv_y: "(case nxt x of None \<Rightarrow> prv | Some n \<Rightarrow> prv(n := prv x)) y = b"
    using nx dist py by (auto split: list.splits)
  have nxt_y: "(case prv x of None \<Rightarrow> nxt | Some p \<Rightarrow> nxt(p := nxt x)) y
                 = (if nxt y = Some x then nxt x else nxt y)"
  proof (cases pre)
    case Nil
    with px ny show ?thesis by simp
  next
    case (Cons z zs)
    have "last pre \<in> set pre" using Cons by simp
    with dist have "last pre \<noteq> y" by auto
    moreover have "nxt y \<noteq> Some x" using ny Cons dist by auto
    ultimately show ?thesis using px Cons by simp
  qed
  have yx: "y \<noteq> x" using dist by auto
  show ?case using ih prv_y nxt_y h yx by simp
qed

lemma dll_unlink:
  assumes "dll prv nxt None h xs" and "x \<in> set xs"
  shows "dll (case nxt x of None \<Rightarrow> prv | Some n \<Rightarrow> prv(n := prv x))
             (case prv x of None \<Rightarrow> nxt | Some p \<Rightarrow> nxt(p := nxt x))
             None (if h = Some x then nxt x else h) (remove1 x xs)"
proof -
  have dist: "distinct xs" using assms(1) by (rule dll_distinct)
  from assms(2) obtain pre post where xs: "xs = pre @ x # post"
    by (auto simp: in_set_conv_decomp)
  with dist have "x \<notin> set pre" by auto
  then have "remove1 x xs = pre @ post" using xs by (simp add: remove1_append)
  then show ?thesis using dll_unlink_mid [of prv nxt None h pre x post] assms(1) xs by simp
qed


lemma dll_unlink_frame:
  assumes "dll prv nxt None h xs" and "x \<in> set xs"
    and fr: "\<And>z. z \<in> set xs \<Longrightarrow> z \<noteq> x \<Longrightarrow>
           prv' z = (if nxt x = Some z then prv x else prv z) \<and>
           nxt' z = (if prv x = Some z then nxt x else nxt z)"
  shows "dll prv' nxt' None (if h = Some x then nxt x else h) (remove1 x xs)"
proof -
  define P where "P = (case nxt x of None \<Rightarrow> prv | Some n \<Rightarrow> prv(n := prv x))"
  define N where "N = (case prv x of None \<Rightarrow> nxt | Some p \<Rightarrow> nxt(p := nxt x))"
  have "dll P N None (if h = Some x then nxt x else h) (remove1 x xs)"
    unfolding P_def N_def using assms(1,2) by (rule dll_unlink)
  moreover have "dll prv' nxt' None (if h = Some x then nxt x else h) (remove1 x xs)
      = dll P N None (if h = Some x then nxt x else h) (remove1 x xs)"
  proof (rule dll_frame)
    fix z assume "z \<in> set (remove1 x xs)"
    then have "z \<in> set xs" and "z \<noteq> x"
      using dll_distinct [OF assms(1)] by auto
    then show "prv' z = P z \<and> nxt' z = N z"
      using fr [of z] by (auto simp: P_def N_def split: option.splits)
  qed
  ultimately show ?thesis by simp
qed

lemma dll_subst_mid:
  assumes "dll prv nxt b h (pre @ old # post)"
    and "new \<notin> set (pre @ old # post)"
    and "\<And>p. b = Some p \<Longrightarrow> p \<notin> set (pre @ old # post)"
    and "prv' new = prv old" and "nxt' new = nxt old"
    and "\<And>z. z \<in> set pre \<union> set post \<Longrightarrow>
           prv' z = (if nxt old = Some z then Some new else prv z) \<and>
           nxt' z = (if prv old = Some z then Some new else nxt z)"
  shows "dll prv' nxt' b (if h = Some old then Some new else h) (pre @ new # post)"
  using assms
proof (induction pre arbitrary: b h)
  case Nil
  then have h: "h = Some old" and po: "prv old = b"
    and tl: "dll prv nxt (Some old) (nxt old) post" by auto
  have dpost: "distinct (old # post)" using dll_distinct [OF Nil.prems(1)] by simp
  have "dll prv' nxt' (Some new) (nxt old) post"
  proof (cases post)
    case Nil
    with tl show ?thesis by simp
  next
    case (Cons n zs)
    with tl have nx: "nxt old = Some n" and pn: "prv n = Some old"
      and zs: "dll prv nxt (Some n) (nxt n) zs" by auto
    have bn: "\<And>p. b = Some p \<Longrightarrow> p \<noteq> n \<and> p \<notin> set zs"
      using Nil.prems(3) Cons by auto
    have n': "prv' n = Some new \<and> nxt' n = nxt n"
      using Nil.prems(6) [of n] Cons nx po bn by (cases b) auto
    have "dll prv' nxt' (Some n) (nxt n) zs = dll prv nxt (Some n) (nxt n) zs"
    proof (rule dll_frame)
      fix z assume z: "z \<in> set zs"
      then have "z \<noteq> n" using dpost Cons by auto
      moreover have "prv old \<noteq> Some z" using po bn z by (cases b) auto
      ultimately show "prv' z = prv z \<and> nxt' z = nxt z"
        using Nil.prems(6) [of z] z Cons nx by auto
    qed
    with zs n' nx Cons show ?thesis by simp
  qed
  then show ?case using h po Nil.prems(4,5) by simp
next
  case (Cons y pre)
  then have h: "h = Some y" and py: "prv y = b"
    and tl: "dll prv nxt (Some y) (nxt y) (pre @ old # post)" by auto
  have dist: "distinct (y # pre @ old # post)"
    using dll_distinct [OF Cons.prems(1)] by simp
  have ih: "dll prv' nxt' (Some y) (if nxt y = Some old then Some new else nxt y)
              (pre @ new # post)"
    using tl dist Cons.prems(2,4,5,6) by (intro Cons.IH) auto
  have nx: "nxt old = (case post of [] \<Rightarrow> None | n # _ \<Rightarrow> Some n)"
    using tl by (rule dll_next_mid)
  have px: "prv old = (if pre = [] then Some y else Some (last pre))"
    using tl by (rule dll_prev_mid)
  have ny: "nxt y = (case pre @ old # post of [] \<Rightarrow> None | z # _ \<Rightarrow> Some z)"
    using tl by (rule dll_head)
  have y': "prv' y = (if nxt old = Some y then Some new else prv y) \<and>
            nxt' y = (if prv old = Some y then Some new else nxt y)"
    using Cons.prems(6) [of y] by simp
  have prv_y: "prv' y = b"
    using y' nx dist py by (auto split: list.splits)
  have nxt_y: "nxt' y = (if nxt y = Some old then Some new else nxt y)"
  proof (cases pre)
    case Nil
    with px ny y' show ?thesis by simp
  next
    case (Cons z zs)
    have "last pre \<in> set pre" using Cons by simp
    with dist have "last pre \<noteq> y" by auto
    moreover have "nxt y \<noteq> Some old" using ny Cons dist by auto
    ultimately show ?thesis using px Cons y' by simp
  qed
  have yx: "y \<noteq> old" using dist by auto
  show ?case using ih prv_y nxt_y h yx by simp
qed

lemma dll_push:
  assumes "dll prv nxt None h xs" and "x \<notin> set xs"
    and "prv' x = None" and "nxt' x = h"
    and fr: "\<And>z. z \<in> set xs \<Longrightarrow> nxt' z = nxt z \<and> prv' z = (if h = Some z then Some x else prv z)"
  shows "dll prv' nxt' None (Some x) (x # xs)"
proof (cases xs)
  case Nil
  with assms show ?thesis by simp
next
  case (Cons r rs)
  with assms(1) have h: "h = Some r" and tl: "dll prv nxt (Some r) (nxt r) rs" by auto
  have "distinct (r # rs)" using dll_distinct [OF assms(1)] Cons by simp
  then have "dll prv' nxt' (Some r) (nxt r) rs = dll prv nxt (Some r) (nxt r) rs"
    using fr h Cons by (intro dll_frame) auto
  with tl fr [of r] h Cons assms(3,4) show ?thesis by simp
qed


section \<open>The chain operations\<close>

lemma dll_no_self:
  assumes "dll prv nxt None h xs" and "x \<in> set xs"
  shows "prv x \<noteq> Some x \<and> nxt x \<noteq> Some x"
proof -
  from assms(2) obtain pre post where xs: "xs = pre @ x # post"
    by (auto simp: in_set_conv_decomp)
  have dist: "distinct (pre @ x # post)" using dll_distinct [OF assms(1)] xs by simp
  have nx: "nxt x = (case post of [] \<Rightarrow> None | n # _ \<Rightarrow> Some n)"
    using assms(1) xs dll_next_mid by blast
  have px: "prv x = (if pre = [] then None else Some (last pre))"
    using assms(1) xs dll_prev_mid by blast
  have "pre \<noteq> [] \<Longrightarrow> last pre \<in> set pre" by simp
  with dist px have "prv x \<noteq> Some x" by auto
  moreover have "nxt x \<noteq> Some x" using nx dist by (auto split: list.splits)
  ultimately show ?thesis by simp
qed

lemma chain_addPointer:
  assumes "chain s this xs" and "P \<notin> set xs"
  shows "chain (addPointer s this P) this (P # xs)"
proof (cases xs)
  case Nil
  with assms show ?thesis by (simp add: chain_def addPointer_def Let_def)
next
  case (Cons q ys)
  with assms(1) have h: "Pointers (blocks s this) = Some q"
    and pq: "PtrPrev (ptrs s q) = None"
    and tl: "dll (\<lambda>p. PtrPrev (ptrs s p)) (\<lambda>p. PtrNext (ptrs s p)) (Some q)
               (PtrNext (ptrs s q)) ys"
    by (auto simp: chain_def)
  have qys: "q \<notin> set ys" using dll_distinct [OF assms(1) [unfolded chain_def]] Cons by simp
  have Pq: "P \<noteq> q" and Pys: "P \<notin> set ys" using assms(2) Cons by auto
  let ?s = "addPointer s this P"
  have "dll (\<lambda>p. PtrPrev (ptrs ?s p)) (\<lambda>p. PtrNext (ptrs ?s p)) (Some q)
          (PtrNext (ptrs s q)) ys
        = dll (\<lambda>p. PtrPrev (ptrs s p)) (\<lambda>p. PtrNext (ptrs s p)) (Some q)
          (PtrNext (ptrs s q)) ys"
    using qys Pys h by (intro dll_frame) (auto simp: addPointer_def Let_def)
  with tl h Pq show ?thesis
    by (simp add: chain_def addPointer_def Let_def Cons)
qed

lemma chain_removePointer:
  assumes "chain s this xs" and "P \<in> set xs"
  shows "chain (removePointer s this P) this (remove1 P xs)"
proof -
  let ?prv = "\<lambda>p. PtrPrev (ptrs s p)" and ?nxt = "\<lambda>p. PtrNext (ptrs s p)"
  let ?s = "removePointer s this P"
  have d: "dll ?prv ?nxt None (Pointers (blocks s this)) xs"
    using assms(1) by (simp add: chain_def)
  have ns: "?prv P \<noteq> Some P \<and> ?nxt P \<noteq> Some P"
    using d assms(2) by (rule dll_no_self)
  have "dll (\<lambda>p. PtrPrev (ptrs ?s p)) (\<lambda>p. PtrNext (ptrs ?s p)) None
          (if Pointers (blocks s this) = Some P then ?nxt P else Pointers (blocks s this))
          (remove1 P xs)"
  proof (rule dll_unlink_frame [OF d assms(2)])
    fix z assume "z \<in> set xs" and "z \<noteq> P"
    then show "PtrPrev (ptrs ?s z) = (if ?nxt P = Some z then ?prv P else ?prv z) \<and>
               PtrNext (ptrs ?s z) = (if ?prv P = Some z then ?nxt P else ?nxt z)"
      using ns by (auto simp: removePointer_def Let_def split: option.splits)
  qed
  then show ?thesis by (simp add: chain_def removePointer_def Let_def)
qed

lemma subst_node_mid:
  "old \<notin> set pre \<Longrightarrow> old \<notin> set post \<Longrightarrow>
   subst_node old new (pre @ old # post) = pre @ new # post"
  by (auto simp: subst_node_def intro!: map_idI)

lemma chain_replacePointer:
  assumes "chain s this xs" and "Old \<in> set xs" and "New \<notin> set xs"
  shows "chain (replacePointer s this Old New) this (subst_node Old New xs)"
proof -
  let ?prv = "\<lambda>p. PtrPrev (ptrs s p)" and ?nxt = "\<lambda>p. PtrNext (ptrs s p)"
  let ?s = "replacePointer s this Old New"
  have d: "dll ?prv ?nxt None (Pointers (blocks s this)) xs"
    using assms(1) by (simp add: chain_def)
  have ns: "?prv Old \<noteq> Some Old \<and> ?nxt Old \<noteq> Some Old"
    using d assms(2) by (rule dll_no_self)
  from assms(2) obtain pre post where xs: "xs = pre @ Old # post"
    by (auto simp: in_set_conv_decomp)
  have dist: "distinct (pre @ Old # post)" using dll_distinct [OF d] xs by simp
  have ON: "Old \<noteq> New" using assms(2,3) by auto
  have nx: "?nxt Old = (case post of [] \<Rightarrow> None | n # _ \<Rightarrow> Some n)"
    using d xs dll_next_mid [of ?prv ?nxt None _ pre Old post] by simp
  have px: "?prv Old = (if pre = [] then None else Some (last pre))"
    using d xs dll_prev_mid [of ?prv ?nxt None _ pre Old post] by simp
  have pN: "?prv Old \<noteq> Some New"
  proof -
    have "pre \<noteq> [] \<Longrightarrow> last pre \<in> set pre" by simp
    then show ?thesis using px assms(3) xs by auto
  qed
  have nN: "?nxt Old \<noteq> Some New"
    using nx assms(3) xs by (auto split: list.splits)
  have "dll (\<lambda>p. PtrPrev (ptrs ?s p)) (\<lambda>p. PtrNext (ptrs ?s p)) None
          (if Pointers (blocks s this) = Some Old then Some New else Pointers (blocks s this))
          (pre @ New # post)"
  proof (rule dll_subst_mid [where prv = ?prv and nxt = ?nxt and old = Old])
    show "dll ?prv ?nxt None (Pointers (blocks s this)) (pre @ Old # post)"
      using d xs by simp
    show "New \<notin> set (pre @ Old # post)" using assms(3) xs by simp
    show "\<And>p. None = Some p \<Longrightarrow> p \<notin> set (pre @ Old # post)" by simp
    show "PtrPrev (ptrs ?s New) = ?prv Old"
      using ON ns pN nN by (auto simp: replacePointer_def Let_def split: option.splits)
    show "PtrNext (ptrs ?s New) = ?nxt Old"
      using ON ns pN nN by (auto simp: replacePointer_def Let_def split: option.splits)
  next
    fix z assume "z \<in> set pre \<union> set post"
    then have "z \<noteq> Old" and "z \<noteq> New" using dist assms(3) xs by auto
    then show "PtrPrev (ptrs ?s z) = (if ?nxt Old = Some z then Some New else ?prv z) \<and>
               PtrNext (ptrs ?s z) = (if ?prv Old = Some z then Some New else ?nxt z)"
      using ON ns pN nN by (auto simp: replacePointer_def Let_def split: option.splits)
  qed
  moreover have "subst_node Old New xs = pre @ New # post"
    using xs dist by (simp add: subst_node_mid)
  ultimately show ?thesis by (simp add: chain_def replacePointer_def Let_def)
qed

lemma chain_unique: "chain s this xs \<Longrightarrow> chain s this ys \<Longrightarrow> xs = ys"
  unfolding chain_def by (rule dll_unique)

lemma chain_nonempty: "chain s this xs \<Longrightarrow> hasPointers s this \<longleftrightarrow> xs \<noteq> []"
  by (cases xs) (auto simp: chain_def hasPointers_def)

lemma chain_step_abs:
  "chain s this xs \<Longrightarrow> chain_pre xs c \<Longrightarrow> chain (chain_step this s c) this (chain_abs xs c)"
  by (cases c) (simp_all add: chain_addPointer chain_removePointer chain_replacePointer)

lemma chain_foldl:
  "chain s this xs \<Longrightarrow> chain_ok xs cs \<Longrightarrow>
   chain (foldl (chain_step this) s cs) this (foldl chain_abs xs cs)"
  by (induction cs arbitrary: s xs) (simp_all add: chain_step_abs)

lemma chain_ok_take: "chain_ok xs cs \<Longrightarrow> chain_ok xs (take n cs)"
proof (induction cs arbitrary: xs n)
  case Nil
  then show ?case by simp
next
  case (Cons c cs)
  then show ?case by (cases n) simp_all
qed

text \<open>
  C1: when the chain of a block is mutated only by attach, detach and retarget, each
  called as its contract demands, then before the first call and after every call
  \<open>hasPointers\<close> is true exactly when the chain of attached reference nodes is non-empty.
  The heap determines the chain: it is the list the calls build, and no other.
\<close>

theorem hasPointers_iff_chain:
  assumes "chain s this xs" and "chain_ok xs cs"
  shows "\<forall>n\<le>length cs.
           chain (foldl (chain_step this) s (take n cs)) this (foldl chain_abs xs (take n cs)) \<and>
           (\<forall>ys. chain (foldl (chain_step this) s (take n cs)) this ys \<longrightarrow>
                 ys = foldl chain_abs xs (take n cs)) \<and>
           (hasPointers (foldl (chain_step this) s (take n cs)) this
              \<longleftrightarrow> 0 < length (foldl chain_abs xs (take n cs)))"
proof (intro allI impI)
  fix n
  let ?s = "foldl (chain_step this) s (take n cs)"
  let ?xs = "foldl chain_abs xs (take n cs)"
  have c: "chain ?s this ?xs"
    using assms by (intro chain_foldl chain_ok_take)
  then have u: "\<forall>ys. chain ?s this ys \<longrightarrow> ys = ?xs"
    by (blast intro: chain_unique)
  have hp: "hasPointers ?s this \<longleftrightarrow> 0 < length ?xs"
    using c by (simp add: chain_nonempty)
  show "chain ?s this ?xs \<and> (\<forall>ys. chain ?s this ys \<longrightarrow> ys = ?xs) \<and>
      (hasPointers ?s this \<longleftrightarrow> 0 < length ?xs)"
    by (intro conjI) (rule c, rule u, rule hp)
qed

text \<open>
  Five mutations of the empty chain of the block at 64: after four of them the chain is
  the single node 3, after all five it is empty again.
\<close>

theorem hasPointers_iff_chain_witness:
  "chain example_state 64 [] \<and> chain_ok [] example_ops \<and>
   \<not> hasPointers example_state 64 \<and>
   chain (foldl (chain_step 64) example_state (take 4 example_ops)) 64 [3] \<and>
   hasPointers (foldl (chain_step 64) example_state (take 4 example_ops)) 64 \<and>
   chain (foldl (chain_step 64) example_state example_ops) 64 [] \<and>
   \<not> hasPointers (foldl (chain_step 64) example_state example_ops) 64"
proof -
  have c: "chain example_state 64 []"
    by (simp add: chain_def example_state_def Block_ctor_def)
  have ok: "chain_ok [] example_ops"
    by (simp add: example_ops_def subst_node_def)
  have a4: "foldl chain_abs [] (take 4 example_ops) = [3]"
    by (simp add: example_ops_def subst_node_def)
  have a5: "foldl chain_abs [] example_ops = []"
    by (simp add: example_ops_def subst_node_def)
  have t5: "take 5 example_ops = example_ops" by (simp add: example_ops_def)
  have l: "length example_ops = 5" by (simp add: example_ops_def)
  note h = hasPointers_iff_chain [OF c ok, THEN spec, THEN mp]
  have h0: "chain (foldl (chain_step 64) example_state (take 0 example_ops)) 64
              (foldl chain_abs [] (take 0 example_ops)) \<and>
            (hasPointers (foldl (chain_step 64) example_state (take 0 example_ops)) 64
               \<longleftrightarrow> 0 < length (foldl chain_abs [] (take 0 example_ops)))"
    using h [of 0] by blast
  have h4: "chain (foldl (chain_step 64) example_state (take 4 example_ops)) 64
              (foldl chain_abs [] (take 4 example_ops)) \<and>
            (hasPointers (foldl (chain_step 64) example_state (take 4 example_ops)) 64
               \<longleftrightarrow> 0 < length (foldl chain_abs [] (take 4 example_ops)))"
    using h [of 4] l by simp
  have h5: "chain (foldl (chain_step 64) example_state (take 5 example_ops)) 64
              (foldl chain_abs [] (take 5 example_ops)) \<and>
            (hasPointers (foldl (chain_step 64) example_state (take 5 example_ops)) 64
               \<longleftrightarrow> 0 < length (foldl chain_abs [] (take 5 example_ops)))"
    using h [of 5] l by simp
  have "\<not> hasPointers example_state 64" using h0 by simp
  moreover have "chain (foldl (chain_step 64) example_state (take 4 example_ops)) 64 [3] \<and>
     hasPointers (foldl (chain_step 64) example_state (take 4 example_ops)) 64"
    using h4 by (simp only: a4) simp
  moreover have "chain (foldl (chain_step 64) example_state example_ops) 64 [] \<and>
     \<not> hasPointers (foldl (chain_step 64) example_state example_ops) 64"
    using h5 by (simp only: a5 t5) simp
  ultimately show ?thesis using c ok by simp
qed

text \<open>
  C7: retarget of an attached node \<open>Old\<close> to a node \<open>New\<close> that is not attached leaves a
  chain of the same length and order in which \<open>New\<close> stands at every position \<open>Old\<close>
  held, \<open>Old\<close> is no longer in the chain, and the links of \<open>Old\<close> are cleared.
\<close>

theorem replacePointer_substitutes:
  assumes "chain s this xs" and "Old \<in> set xs" and "New \<notin> set xs"
  shows "chain (replacePointer s this Old New) this (subst_node Old New xs) \<and>
         length (subst_node Old New xs) = length xs \<and>
         Old \<notin> set (subst_node Old New xs) \<and>
         (\<forall>i<length xs. subst_node Old New xs ! i = (if xs ! i = Old then New else xs ! i)) \<and>
         PtrPrev (ptrs (replacePointer s this Old New) Old) = None \<and>
         PtrNext (ptrs (replacePointer s this Old New) Old) = None"
proof -
  have "Old \<noteq> New" using assms(2,3) by auto
  then have "Old \<notin> set (subst_node Old New xs)"
    by (auto simp: subst_node_def)
  moreover have "PtrPrev (ptrs (replacePointer s this Old New) Old) = None \<and>
         PtrNext (ptrs (replacePointer s this Old New) Old) = None"
    by (simp add: replacePointer_def Let_def)
  ultimately show ?thesis
    using chain_replacePointer [OF assms] by (simp add: subst_node_def)
qed

lemma example_chain: "chain example_chain_state 64 [3, 2, 1]"
proof -
  have "chain_ok [] [Attach 1, Attach 2, Attach 3]" by simp
  moreover have "chain (invokeCtor example_descs example_state 64) 64 []"
    by (simp add: chain_def invokeCtor_def Let_def example_state_def example_descs_def
        example_desc_def Block_ctor_def)
  ultimately have "chain example_chain_state 64 (foldl chain_abs [] [Attach 1, Attach 2, Attach 3])"
    unfolding example_chain_state_def by (intro chain_foldl)
  then show ?thesis by simp
qed

text \<open>
  In the chain 3, 2, 1 the node 2 is retargeted to the node 7.
\<close>

theorem replacePointer_substitutes_witness:
  "chain example_chain_state 64 [3, 2, 1] \<and> (2::nat) \<in> set [3, 2, 1] \<and> (7::nat) \<notin> set [3, 2, 1] \<and>
   chain (replacePointer example_chain_state 64 2 7) 64 [3, 7, 1] \<and>
   PtrNext (ptrs (replacePointer example_chain_state 64 2 7) 2) = None"
  using replacePointer_substitutes [of example_chain_state 64 "[3, 2, 1]" 2 7] example_chain
  by (simp add: subst_node_def)



section \<open>Layout, construction and destruction\<close>

lemma memset_apply:
  "memset m p v n a = (if p \<le> a \<and> a < p + n then v else m a)"
  by (induction n arbitrary: m p) auto

lemma copy_bytes_apply:
  "copy_bytes m0 m dst src n a =
     (if dst \<le> a \<and> a < dst + n then m0 (src + (a - dst)) else m a)"
proof (induction n arbitrary: m dst src)
  case 0
  then show ?case by auto
next
  case (Suc n)
  have "copy_bytes m0 (m(dst := m0 src)) (Suc dst) (Suc src) n a =
          (if Suc dst \<le> a \<and> a < Suc dst + n then m0 (Suc src + (a - Suc dst))
           else (m(dst := m0 src)) a)"
    by (rule Suc.IH)
  moreover have "Suc dst \<le> a \<Longrightarrow> Suc src + (a - Suc dst) = src + (a - dst)"
    by arith
  ultimately show ?case by auto
qed

lemma memcpy_apply:
  "memcpy m dst src n a = (if dst \<le> a \<and> a < dst + n then m (src + (a - dst)) else m a)"
  by (simp add: memcpy_def copy_bytes_apply)

text \<open>
  C3: \<open>data()\<close> is \<open>rawData()\<close> plus the descriptor's metadata size, and \<open>rawData()\<close> is
  the address of the block plus the size of the header; with a metadata size of 8,
  \<open>data()\<close> is \<open>rawData() + 8\<close>.
\<close>

theorem data_after_rawData:
  "data D s this = rawData this + unat (getMetadataSize (D (getDescriptor s this))) \<and>
   rawData this = this + sizeof_Block \<and>
   (getMetadataSize (D (getDescriptor s this)) = 8 \<longrightarrow> data D s this = rawData this + 8)"
  by (simp add: data_def rawData_def getDescriptor_def)

text \<open>
  The scenario of the specification: metadata size 8, data size 24, total size 32.
\<close>

theorem data_after_rawData_witness:
  "getMetadataSize (example_descs (getDescriptor example_state 64)) = 8 \<and>
   getDataSize (example_descs (getDescriptor example_state 64)) = 24 \<and>
   getSize example_descs example_state 64 = 32 \<and>
   data example_descs example_state 64 = rawData 64 + 8"
  using data_after_rawData [of example_descs example_state 64]
  by (simp add: example_state_def example_descs_def example_desc_def getDescriptor_def
      getSize_def Block_ctor_def)

text \<open>
  C10: a block built by the public constructor without a declaration id parameter holds
  the id \<open>(unsigned)-1\<close>, so \<open>getDeclID()\<close> returns the present optional 4294967295 and
  not the absent one; of the two constructors without that parameter only the protected
  one leaves the id absent. The public constructor with the parameter stores the optional
  it is given.
\<close>

theorem getDeclID_ctor_forms:
  "getDeclID (s\<lparr>blocks := (blocks s)(this := Block_ctor_nodecl desc st ex)\<rparr>) this
     = Some 4294967295 \<and>
   getDeclID (s\<lparr>blocks := (blocks s)(this := Block_ctor_nodecl desc st ex)\<rparr>) this
     \<noteq> None \<and>
   getDeclID (s\<lparr>blocks := (blocks s)(this := Block_ctor_dead desc ex st dd)\<rparr>) this
     = None \<and>
   getDeclID (s\<lparr>blocks := (blocks s)(this := Block_ctor i desc st ex)\<rparr>) this
     = i"
  by (simp add: getDeclID_def Block_ctor_nodecl_def Block_ctor_dead_def Block_ctor_def)

text \<open>
  C2: \<open>invokeCtor\<close> first zero-fills the \<open>getAllocSize()\<close> bytes from \<open>rawData()\<close> on,
  then runs the construct callback, if there is one, in the zero-filled state with the
  arguments (block, \<open>data()\<close>, \<open>IsConst\<close>, \<open>IsMutable\<close>, true, descriptor), and finally sets
  \<open>IsInitialized\<close> in the state the callback left.
\<close>

theorem invokeCtor_steps:
  "invokeCtor D s this =
     (let d = D (getDescriptor s this);
          zeroed = s\<lparr>bytes := (\<lambda>a. if rawData this \<le> a \<and> a < rawData this + unat (getAllocSize d)
                                   then 0 else bytes s a)\<rparr>;
          called = (case CtorFn d of
                      None \<Rightarrow> zeroed
                    | Some f \<Rightarrow> f this (rawData this + unat (getMetadataSize d)) (IsConst d)
                                  (IsMutable d) True (getDescriptor s this) zeroed)
      in called\<lparr>blocks := (blocks called)(this := (blocks called this)\<lparr>IsInitialized := True\<rparr>)\<rparr>) \<and>
   isInitialized (invokeCtor D s this) this"
proof -
  have "memset (bytes s) (rawData this) 0 n =
          (\<lambda>a. if rawData this \<le> a \<and> a < rawData this + n then 0 else bytes s a)" for n
    by (rule ext) (simp add: memset_apply)
  then show ?thesis
    by (simp add: invokeCtor_def Let_def data_def getDescriptor_def isInitialized_def
        split: option.splits)
qed

text \<open>
  The block at 256 has a construct callback that writes 1 to the first data byte: after
  \<open>invokeCtor\<close> that byte is 1, the bytes around it in the allocation are 0, the byte
  behind the allocation is untouched, and the block is initialized.
\<close>

theorem invokeCtor_steps_witness:
  "bytes (invokeCtor example_descs example_state 256) (data example_descs example_state 256) = 1 \<and>
   bytes (invokeCtor example_descs example_state 256) (rawData 256) = 0 \<and>
   bytes (invokeCtor example_descs example_state 256) (data example_descs example_state 256 + 1) = 0 \<and>
   bytes (invokeCtor example_descs example_state 256) (rawData 256 + 32) = 0xAA \<and>
   isInitialized (invokeCtor example_descs example_state 256) 256"
  using invokeCtor_steps [of example_descs example_state 256]
  by (simp add: Let_def getDescriptor_def isInitialized_def data_def rawData_def sizeof_Block_def
      example_state_def example_descs_def example_desc_def example_ctor_def
      Block_ctor_nodecl_def)

text \<open>
  C5, as stated, fails for \<open>invokeCtor\<close>: without a construct callback the data bytes are
  still zero-filled. Here a data byte \<open>0xAA\<close> reads 0 afterwards.
\<close>

theorem invokeCtor_zero_fills_counterexample:
  "CtorFn (example_descs (getDescriptor example_state 64)) = None \<and>
   bytes example_state (data example_descs example_state 64) = 0xAA \<and>
   bytes (invokeCtor example_descs example_state 64) (data example_descs example_state 64) = 0"
  by (simp add: invokeCtor_def Let_def memset_apply data_def rawData_def
      example_state_def example_descs_def example_desc_def getDescriptor_def Block_ctor_def)

text \<open>
  C5, amended: without a construct callback \<open>invokeCtor\<close> zero-fills the
  \<open>getAllocSize()\<close> bytes from \<open>rawData()\<close> on and sets \<open>IsInitialized\<close>, and changes
  nothing else; without a destroy callback \<open>invokeDtor\<close> clears \<open>IsInitialized\<close> and changes
  nothing else, the bytes of the block included.
\<close>

theorem absent_callbacks:
  "(CtorFn (D (getDescriptor s this)) = None \<longrightarrow>
      invokeCtor D s this =
        s\<lparr>bytes := (\<lambda>a. if rawData this \<le> a \<and>
                           a < rawData this + unat (getAllocSize (D (getDescriptor s this)))
                        then 0 else bytes s a),
          blocks := (blocks s)(this := (blocks s this)\<lparr>IsInitialized := True\<rparr>)\<rparr>) \<and>
   (DtorFn (D (getDescriptor s this)) = None \<longrightarrow>
      invokeDtor D s this =
        s\<lparr>blocks := (blocks s)(this := (blocks s this)\<lparr>IsInitialized := False\<rparr>)\<rparr>)"
proof -
  have "memset (bytes s) (rawData this) 0 n =
          (\<lambda>a. if rawData this \<le> a \<and> a < rawData this + n then 0 else bytes s a)" for n
    by (rule ext) (simp add: memset_apply)
  then show ?thesis
    by (simp add: invokeCtor_def invokeDtor_def Let_def getDescriptor_def)
qed

theorem absent_callbacks_witness:
  "CtorFn (example_descs (getDescriptor example_state 64)) = None \<and>
   DtorFn (example_descs (getDescriptor example_state 64)) = None \<and>
   bytes (invokeCtor example_descs example_state 64) 96 = 0 \<and>
   bytes (invokeCtor example_descs example_state 64) 128 = 0xAA \<and>
   isInitialized (invokeCtor example_descs example_state 64) 64 \<and>
   bytes (invokeDtor example_descs example_state 64) = bytes example_state \<and>
   \<not> isInitialized (invokeDtor example_descs example_state 64) 64"
proof -
  have c: "CtorFn (example_descs (getDescriptor example_state 64)) = None"
    and d: "DtorFn (example_descs (getDescriptor example_state 64)) = None"
    by (simp_all add: example_state_def example_descs_def example_desc_def getDescriptor_def
        Block_ctor_def)
  note e1 = absent_callbacks [of example_descs example_state 64, THEN conjunct1, THEN mp, OF c]
  note e2 = absent_callbacks [of example_descs example_state 64, THEN conjunct2, THEN mp, OF d]
  have "bytes (invokeCtor example_descs example_state 64) 96 = 0 \<and>
        bytes (invokeCtor example_descs example_state 64) 128 = 0xAA \<and>
        isInitialized (invokeCtor example_descs example_state 64) 64"
    by (simp add: e1 isInitialized_def rawData_def sizeof_Block_def)
       (simp add: example_state_def example_descs_def example_desc_def getDescriptor_def
          Block_ctor_def)
  moreover have "bytes (invokeDtor example_descs example_state 64) = bytes example_state \<and>
        \<not> isInitialized (invokeDtor example_descs example_state 64) 64"
    by (simp add: e2 isInitialized_def)
  ultimately show ?thesis using c d by simp
qed


section \<open>Relocation and release\<close>

lemma transfer_pointers_chain:
  "dll (\<lambda>p. PtrPrev (ps p)) (\<lambda>p. PtrNext (ps p)) b h xs \<Longrightarrow>
   transfer_pointers ps h tgt =
     Some (\<lambda>p. if p \<in> set xs then (ps p)\<lparr>Pointee := Some tgt\<rparr> else ps p)"
proof (induction xs arbitrary: ps b h)
  case Nil
  then show ?case by (simp add: transfer_pointers.simps)
next
  case (Cons x xs)
  let ?ps = "ps(x := (ps x)\<lparr>Pointee := Some tgt\<rparr>)"
  from Cons.prems have h: "h = Some x"
    and tl: "dll (\<lambda>p. PtrPrev (ps p)) (\<lambda>p. PtrNext (ps p)) (Some x) (PtrNext (ps x)) xs"
    by auto
  have "dll (\<lambda>p. PtrPrev (?ps p)) (\<lambda>p. PtrNext (?ps p)) (Some x) (PtrNext (ps x)) xs
        = dll (\<lambda>p. PtrPrev (ps p)) (\<lambda>p. PtrNext (ps p)) (Some x) (PtrNext (ps x)) xs"
    by (intro dll_frame) simp
  with tl have "transfer_pointers ?ps (PtrNext (ps x)) tgt =
      Some (\<lambda>p. if p \<in> set xs then (?ps p)\<lparr>Pointee := Some tgt\<rparr> else ?ps p)"
    by (intro Cons.IH) simp
  moreover have "(\<lambda>p. if p \<in> set xs then (?ps p)\<lparr>Pointee := Some tgt\<rparr> else ?ps p)
      = (\<lambda>p. if p \<in> set (x # xs) then (ps p)\<lparr>Pointee := Some tgt\<rparr> else ps p)"
    by (rule ext) simp
  ultimately show ?case using h
    by (subst transfer_pointers.simps) simp
qed

lemma deadlist_free_mid:
  assumes "deadlist s (pre @ this # post)"
  shows "deadlist (DeadBlock_free s this) (pre @ post)"
proof -
  let ?prv = "\<lambda>d. Prev (deads s d)" and ?nxt = "\<lambda>d. Next (deads s d)"
  let ?s = "DeadBlock_free s this"
  let ?xs = "pre @ this # post"
  have d: "dll ?prv ?nxt None (Root s) ?xs" and sub: "set ?xs \<subseteq> heap s"
    using assms by (simp_all add: deadlist_def)
  have mem: "this \<in> set ?xs" by simp
  have dist: "distinct ?xs" using d by (rule dll_distinct)
  have ns: "?prv this \<noteq> Some this \<and> ?nxt this \<noteq> Some this"
    using d mem by (rule dll_no_self)
  have rm: "remove1 this ?xs = pre @ post"
    using dist by (simp add: remove1_append)
  have "dll (\<lambda>d. Prev (deads ?s d)) (\<lambda>d. Next (deads ?s d)) None
          (if Root s = Some this then ?nxt this else Root s) (remove1 this ?xs)"
  proof (rule dll_unlink_frame [OF d mem])
    fix z assume "z \<in> set ?xs" and "z \<noteq> this"
    then show "Prev (deads ?s z) = (if ?nxt this = Some z then ?prv this else ?prv z) \<and>
               Next (deads ?s z) = (if ?prv this = Some z then ?nxt this else ?nxt z)"
      using ns by (auto simp: DeadBlock_free_def Let_def split: option.splits)
  qed
  moreover have "Root ?s = (if Root s = Some this then ?nxt this else Root s)"
    using ns by (auto simp: DeadBlock_free_def Let_def split: option.splits)
  moreover have "set (pre @ post) \<subseteq> heap ?s"
    using sub dist by (auto simp: DeadBlock_free_def Let_def)
  ultimately show ?thesis by (simp add: deadlist_def rm)
qed

lemma Block_copy_dead:
  "(Block_ctor_dead (Desc blk) (IsExtern blk) (IsStatic blk) True)
     \<lparr>Pointers := Pointers blk, DeclID := DeclID blk, IsInitialized := IsInitialized blk\<rparr>
   = blk\<lparr>IsDead := True\<rparr>"
  by (simp add: Block_ctor_dead_def)

lemma DeadBlock_ctor_returns:
  "chain s Blk xs \<Longrightarrow> \<exists>s'. DeadBlock_ctor D s this Blk = Some s'"
  by (simp add: DeadBlock_ctor_def Let_def chain_def transfer_pointers_chain)

lemma example_chain_frame:
  "deads example_chain_state = deads example_state \<and> Root example_chain_state = None \<and>
   heap example_chain_state = {} \<and>
   bytes example_chain_state = bytes (invokeCtor example_descs example_state 64) \<and>
   blocks example_chain_state 64 = (blocks example_state 64)\<lparr>Pointers := Some 3, IsInitialized := True\<rparr>"
  by (simp add: example_chain_state_def addPointer_def Let_def invokeCtor_def example_state_def
      example_descs_def example_desc_def Block_ctor_def)

text \<open>
  C6: building a relocated block in new storage \<open>this\<close> from a block with the chain \<open>xs\<close>
  returns; the embedded block holds the header of the source block, marked dead, and has
  the same size; the metadata and data are copied; the node is the new head of the global
  list and \<open>Root\<close> points to it; the chain of the embedded block is \<open>xs\<close>, of the same
  length and order; every node of it targets the embedded block, and the data it then
  views are byte for byte the data of the source block at the moment of relocation.
\<close>

theorem DeadBlock_ctor_relocates:
  assumes ch: "chain s Blk xs" and dl: "deadlist s ds" and fresh: "this \<notin> heap s"
    and sz: "unat (getMetadataSize (D (getDescriptor s Blk))) +
             unat (getDataSize (D (getDescriptor s Blk)))
               \<le> unat (getAllocSize (D (getDescriptor s Blk)))"
  shows "\<exists>s'. DeadBlock_ctor D s this Blk = Some s' \<and>
           blocks s' (addr_B this) = (blocks s Blk)\<lparr>IsDead := True\<rparr> \<and>
           getSize D s' (addr_B this) = getSize D s Blk \<and>
           (\<forall>i<unat (getSize D s Blk).
              bytes s' (rawData (addr_B this) + i) = bytes s (rawData Blk + i)) \<and>
           deadlist s' (this # ds) \<and> Root s' = Some this \<and>
           chain s' (addr_B this) xs \<and>
           (\<forall>p\<in>set xs. Pointee (ptrs s' p) = Some (addr_B this)) \<and>
           (\<forall>p\<in>set xs. \<forall>i<unat (getDataSize (D (getDescriptor s Blk))).
              bytes s' (data D s' (the (Pointee (ptrs s' p))) + i) = bytes s (data D s Blk + i))"
proof -
  let ?B = "addr_B this"
  let ?blk = "blocks s Blk"
  let ?d = "D (Desc ?blk)"
  let ?n = "unat (getAllocSize ?d)"
  define ps where "ps = (\<lambda>p. if p \<in> set xs then (ptrs s p)\<lparr>Pointee := Some ?B\<rparr> else ptrs s p)"
  define ds2 where "ds2 =
     (case Root s of None \<Rightarrow> deads s
      | Some r \<Rightarrow> (deads s)(r := (deads s r)\<lparr>Prev := Some this\<rparr>))
     (this := \<lparr>Prev = None, Next = Root s\<rparr>)"
  define s' where "s' = s\<lparr>bytes := memcpy (bytes s) (rawData ?B) (rawData Blk) ?n,
      blocks := (blocks s)(?B := ?blk\<lparr>IsDead := True\<rparr>), ptrs := ps,
      deads := ds2, Root := Some this, heap := insert this (heap s)\<rparr>"
  have cd: "dll (\<lambda>p. PtrPrev (ptrs s p)) (\<lambda>p. PtrNext (ptrs s p)) None (Pointers ?blk) xs"
    using ch by (simp add: chain_def)
  have tp: "transfer_pointers (ptrs s) (Pointers ?blk) ?B = Some ps"
    unfolding ps_def using cd by (rule transfer_pointers_chain)
  have run: "DeadBlock_ctor D s this Blk = Some s'"
    by (simp add: DeadBlock_ctor_def Let_def tp Block_copy_dead s'_def ds2_def)
  have hdr: "blocks s' ?B = ?blk\<lparr>IsDead := True\<rparr>"
    by (simp add: s'_def)
  have size: "getSize D s' ?B = getSize D s Blk"
    by (simp add: getSize_def s'_def)
  have copy: "bytes s' (rawData ?B + i) = bytes s (rawData Blk + i)" if "i < ?n" for i
    using that by (simp add: s'_def memcpy_apply)
  have dd: "dll (\<lambda>d. Prev (deads s d)) (\<lambda>d. Next (deads s d)) None (Root s) ds"
    and sub: "set ds \<subseteq> heap s"
    using dl by (simp_all add: deadlist_def)
  have notin: "this \<notin> set ds" using sub fresh by auto
  have "dll (\<lambda>d. Prev (ds2 d)) (\<lambda>d. Next (ds2 d)) None (Some this) (this # ds)"
  proof (rule dll_push [OF dd notin])
    show "Prev (ds2 this) = None" and "Next (ds2 this) = Root s"
      by (simp_all add: ds2_def)
  next
    fix z assume "z \<in> set ds"
    with notin have "z \<noteq> this" by auto
    then show "Next (ds2 z) = Next (deads s z) \<and>
               Prev (ds2 z) = (if Root s = Some z then Some this else Prev (deads s z))"
      by (auto simp: ds2_def split: option.splits)
  qed
  then have dl': "deadlist s' (this # ds)"
    using sub by (auto simp: deadlist_def s'_def)
  have root: "Root s' = Some this" by (simp add: s'_def)
  have "dll (\<lambda>p. PtrPrev (ps p)) (\<lambda>p. PtrNext (ps p)) None (Pointers ?blk) xs
        = dll (\<lambda>p. PtrPrev (ptrs s p)) (\<lambda>p. PtrNext (ptrs s p)) None (Pointers ?blk) xs"
    by (intro dll_frame) (simp add: ps_def)
  with cd have ch': "chain s' ?B xs"
    by (simp add: chain_def s'_def)
  have tgt: "Pointee (ptrs s' p) = Some ?B" if "p \<in> set xs" for p
    using that by (simp add: s'_def ps_def)
  have dat: "data D s' ?B = rawData ?B + unat (getMetadataSize ?d)"
    by (simp add: data_def s'_def)
  have view: "bytes s' (data D s' (the (Pointee (ptrs s' p))) + i) = bytes s (data D s Blk + i)"
    if "p \<in> set xs" and "i < unat (getDataSize ?d)" for p i
  proof -
    have "unat (getMetadataSize ?d) + i < ?n"
      using sz that(2) by (simp add: getDescriptor_def)
    then have "bytes s' (rawData ?B + (unat (getMetadataSize ?d) + i))
       = bytes s (rawData Blk + (unat (getMetadataSize ?d) + i))"
      by (rule copy)
    then show ?thesis
      using tgt [OF that(1)] dat by (simp add: data_def add.assoc)
  qed
  show ?thesis
    using run hdr size copy dl' root ch' tgt view
    by (simp add: getSize_def getDescriptor_def)
qed

text \<open>
  The constructed block at 64 with three references is relocated to the storage at 1000,
  which held \<open>0xAA\<close> before.
\<close>

theorem DeadBlock_ctor_relocates_witness:
  "chain example_chain_state 64 [3, 2, 1] \<and> deadlist example_chain_state [] \<and>
   1000 \<notin> heap example_chain_state \<and>
   bytes example_chain_state (data example_descs example_chain_state 64) = 0 \<and>
   bytes example_chain_state (data example_descs example_chain_state (addr_B 1000)) = 0xAA \<and>
   (\<exists>s'. DeadBlock_ctor example_descs example_chain_state 1000 64 = Some s' \<and>
      chain s' (addr_B 1000) [3, 2, 1] \<and> deadlist s' [1000] \<and> Root s' = Some 1000 \<and>
      IsDead (blocks s' (addr_B 1000)) \<and>
      Pointee (ptrs s' 2) = Some (addr_B 1000) \<and>
      bytes s' (data example_descs s' (the (Pointee (ptrs s' 2)))) = 0)"
proof -
  note f = example_chain_frame
  have dl: "deadlist example_chain_state []"
    by (simp add: deadlist_def f)
  have fr: "1000 \<notin> heap example_chain_state" by (simp add: f)
  have gd: "example_descs (getDescriptor example_chain_state 64) = example_desc"
    by (simp add: f getDescriptor_def example_state_def example_descs_def Block_ctor_def)
  have sz: "unat (getMetadataSize (example_descs (getDescriptor example_chain_state 64))) +
        unat (getDataSize (example_descs (getDescriptor example_chain_state 64)))
        \<le> unat (getAllocSize (example_descs (getDescriptor example_chain_state 64)))"
    by (simp add: gd) (simp add: example_desc_def)
  have b0: "bytes example_chain_state (data example_descs example_chain_state 64) = 0"
    by (simp add: f data_def rawData_def sizeof_Block_def invokeCtor_def Let_def memset_apply
        example_state_def example_descs_def example_desc_def Block_ctor_def)
  have b1: "bytes example_chain_state (data example_descs example_chain_state (addr_B 1000)) = 0xAA"
    by (simp add: f data_def rawData_def sizeof_Block_def addr_B_def offsetof_B_def
        invokeCtor_def Let_def memset_apply
        example_state_def example_descs_def example_desc_def Block_ctor_def)
  from DeadBlock_ctor_relocates [where D = example_descs, OF example_chain dl fr sz]
  obtain s' where run: "DeadBlock_ctor example_descs example_chain_state 1000 64 = Some s'"
    and hdr: "blocks s' (addr_B 1000) = (blocks example_chain_state 64)\<lparr>IsDead := True\<rparr>"
    and dl': "deadlist s' [1000]" and root: "Root s' = Some 1000"
    and ch': "chain s' (addr_B 1000) [3, 2, 1]"
    and tgt: "\<forall>p\<in>set [3, 2, 1]. Pointee (ptrs s' p) = Some (addr_B 1000)"
    and view: "\<forall>p\<in>set [3, 2, 1]. \<forall>i<unat (getDataSize
         (example_descs (getDescriptor example_chain_state 64))).
         bytes s' (data example_descs s' (the (Pointee (ptrs s' p))) + i)
           = bytes example_chain_state (data example_descs example_chain_state 64 + i)"
    by blast
  have "Pointee (ptrs s' 2) = Some (addr_B 1000)" using tgt by simp
  moreover have "bytes s' (data example_descs s' (the (Pointee (ptrs s' 2)))) = 0"
    using view [rule_format, of 2 0] b0 by (simp add: gd) (simp add: example_desc_def)
  moreover have "IsDead (blocks s' (addr_B 1000))" using hdr by simp
  ultimately show ?thesis
    using example_chain dl fr b0 b1 run dl' root ch' by simp
qed

text \<open>
  C8: release of the node \<open>this\<close> of the global list, wherever it stands (\<open>pre\<close> or \<open>post\<close>
  may be empty), leaves the list without it: the next link of the predecessor and the
  previous link of the successor are patched, \<open>Root\<close> is patched when the node was the
  head, and the storage of the node is reclaimed. Nothing else changes. (That the chain
  of the embedded block is empty by then is the caller's obligation; release does not
  depend on it.)
\<close>

theorem DeadBlock_free_unlinks:
  assumes "deadlist s (pre @ this # post)"
  shows "deadlist (DeadBlock_free s this) (pre @ post) \<and>
         Root (DeadBlock_free s this) =
           (if pre = [] then (case post of [] \<Rightarrow> None | n # _ \<Rightarrow> Some n) else Root s) \<and>
         (pre \<noteq> [] \<longrightarrow> Next (deads (DeadBlock_free s this) (last pre)) =
           (case post of [] \<Rightarrow> None | n # _ \<Rightarrow> Some n)) \<and>
         (post \<noteq> [] \<longrightarrow> Prev (deads (DeadBlock_free s this) (hd post)) =
           (if pre = [] then None else Some (last pre))) \<and>
         heap (DeadBlock_free s this) = heap s - {this} \<and>
         bytes (DeadBlock_free s this) = bytes s \<and>
         blocks (DeadBlock_free s this) = blocks s \<and>
         ptrs (DeadBlock_free s this) = ptrs s"
proof -
  let ?s = "DeadBlock_free s this"
  have dl: "deadlist ?s (pre @ post)" using assms by (rule deadlist_free_mid)
  then have d': "dll (\<lambda>d. Prev (deads ?s d)) (\<lambda>d. Next (deads ?s d)) None (Root ?s) (pre @ post)"
    by (simp add: deadlist_def)
  have d: "dll (\<lambda>d. Prev (deads s d)) (\<lambda>d. Next (deads s d)) None (Root s) (pre @ this # post)"
    using assms by (simp add: deadlist_def)
  have root: "Root ?s = (if pre = [] then (case post of [] \<Rightarrow> None | n # _ \<Rightarrow> Some n) else Root s)"
  proof (cases pre)
    case Nil
    then show ?thesis using dll_head [OF d'] by simp
  next
    case (Cons y ys)
    then have "Root ?s = Some y" using dll_head [OF d'] by simp
    moreover have "Root s = Some y" using dll_head [OF d] Cons by simp
    ultimately show ?thesis using Cons by simp
  qed
  have nxt: "Next (deads ?s (last pre)) = (case post of [] \<Rightarrow> None | n # _ \<Rightarrow> Some n)"
    if "pre \<noteq> []"
  proof -
    from that have "pre @ post = butlast pre @ last pre # post" by simp
    with d' have "dll (\<lambda>d. Prev (deads ?s d)) (\<lambda>d. Next (deads ?s d)) None (Root ?s)
       (butlast pre @ last pre # post)" by simp
    then show ?thesis by (rule dll_next_mid)
  qed
  have prv: "Prev (deads ?s (hd post)) = (if pre = [] then None else Some (last pre))"
    if "post \<noteq> []"
  proof -
    from that have "pre @ post = pre @ hd post # tl post" by simp
    with d' have "dll (\<lambda>d. Prev (deads ?s d)) (\<lambda>d. Next (deads ?s d)) None (Root ?s)
       (pre @ hd post # tl post)" by simp
    then show ?thesis by (rule dll_prev_mid)
  qed
  have "heap ?s = heap s - {this} \<and> bytes ?s = bytes s \<and> blocks ?s = blocks s \<and> ptrs ?s = ptrs s"
    by (simp add: DeadBlock_free_def Let_def)
  with dl root nxt prv show ?thesis by simp
qed

text \<open>
  Release of the head, the middle and the tail of a list of three relocated blocks without
  references.
\<close>

theorem DeadBlock_free_unlinks_witness:
  "deadlist example_dead_state [3000, 2000, 1000] \<and>
   \<not> hasPointers example_dead_state (addr_B 2000) \<and>
   deadlist (DeadBlock_free example_dead_state 3000) [2000, 1000] \<and>
   Root (DeadBlock_free example_dead_state 3000) = Some 2000 \<and>
   deadlist (DeadBlock_free example_dead_state 2000) [3000, 1000] \<and>
   Root (DeadBlock_free example_dead_state 2000) = Some 3000 \<and>
   Next (deads (DeadBlock_free example_dead_state 2000) 3000) = Some 1000 \<and>
   Prev (deads (DeadBlock_free example_dead_state 2000) 1000) = Some 3000 \<and>
   deadlist (DeadBlock_free example_dead_state 1000) [3000, 2000] \<and>
   Next (deads (DeadBlock_free example_dead_state 1000) 2000) = None \<and>
   heap (DeadBlock_free example_dead_state 2000) = {1000, 3000}"
proof -
  have d: "deadlist example_dead_state [3000, 2000, 1000]"
    by (simp add: deadlist_def example_dead_state_def)
  have np: "\<not> hasPointers example_dead_state (addr_B 2000)"
    by (simp add: hasPointers_def example_dead_state_def example_state_def Block_ctor_def
        addr_B_def offsetof_B_def)
  have h: "heap example_dead_state - {2000} = {1000, 3000}"
    by (auto simp: example_dead_state_def)
  have r: "Root example_dead_state = Some 3000" by (simp add: example_dead_state_def)
  show ?thesis
    using DeadBlock_free_unlinks [of example_dead_state "[]" 3000 "[2000, 1000]"]
      DeadBlock_free_unlinks [of example_dead_state "[3000]" 2000 "[1000]"]
      DeadBlock_free_unlinks [of example_dead_state "[3000, 2000]" 1000 "[]"]
      d np h r
    by simp
qed


section \<open>Flags over sequences of operations\<close>

lemma callbacks_ctor:
  "callbacks_keep P D \<Longrightarrow> CtorFn (D d) = Some f \<Longrightarrow> P (f blk dat c m a dp)"
  unfolding callbacks_keep_def by (drule spec [of _ d]) simp

lemma callbacks_dtor:
  "callbacks_keep P D \<Longrightarrow> DtorFn (D d) = Some f \<Longrightarrow> P (f blk dat dp)"
  unfolding callbacks_keep_def by (drule spec [of _ d]) simp

lemma invokeCtor_flags:
  assumes "callbacks_keep (keeps_flags b) D"
  shows "IsStatic (blocks (invokeCtor D s this) b) = IsStatic (blocks s b) \<and>
         IsExtern (blocks (invokeCtor D s this) b) = IsExtern (blocks s b) \<and>
         IsDead (blocks (invokeCtor D s this) b) = IsDead (blocks s b)"
proof (cases "CtorFn (D (Desc (blocks s this)))")
  case None
  then show ?thesis by (simp add: invokeCtor_def Let_def)
next
  case (Some f)
  have "keeps_flags b (f blk dat c m a dp)" for blk dat c m a dp
    using assms Some by (rule callbacks_ctor)
  then show ?thesis
    using Some by (auto simp: invokeCtor_def Let_def keeps_flags_def)
qed

lemma invokeDtor_flags:
  assumes "callbacks_keep (keeps_flags b) D"
  shows "IsStatic (blocks (invokeDtor D s this) b) = IsStatic (blocks s b) \<and>
         IsExtern (blocks (invokeDtor D s this) b) = IsExtern (blocks s b) \<and>
         IsDead (blocks (invokeDtor D s this) b) = IsDead (blocks s b)"
proof (cases "DtorFn (D (Desc (blocks s this)))")
  case None
  then show ?thesis by (simp add: invokeDtor_def Let_def)
next
  case (Some f)
  have "keeps_flags b (f blk dat dp)" for blk dat dp
    using assms Some by (rule callbacks_dtor)
  then show ?thesis
    using Some by (auto simp: invokeDtor_def Let_def keeps_flags_def)
qed

lemma invokeCtor_initialized:
  assumes "callbacks_keep (keeps_initialized b) D"
  shows "IsInitialized (blocks (invokeCtor D s this) b) =
           (if b = this then True else IsInitialized (blocks s b))"
proof (cases "CtorFn (D (Desc (blocks s this)))")
  case None
  then show ?thesis by (simp add: invokeCtor_def Let_def)
next
  case (Some f)
  have "keeps_initialized b (f blk dat c m a dp)" for blk dat c m a dp
    using assms Some by (rule callbacks_ctor)
  then show ?thesis
    using Some by (auto simp: invokeCtor_def Let_def keeps_initialized_def)
qed

lemma invokeDtor_initialized:
  assumes "callbacks_keep (keeps_initialized b) D"
  shows "IsInitialized (blocks (invokeDtor D s this) b) =
           (if b = this then False else IsInitialized (blocks s b))"
proof (cases "DtorFn (D (Desc (blocks s this)))")
  case None
  then show ?thesis by (simp add: invokeDtor_def Let_def)
next
  case (Some f)
  have "keeps_initialized b (f blk dat dp)" for blk dat dp
    using assms Some by (rule callbacks_dtor)
  then show ?thesis
    using Some by (auto simp: invokeDtor_def Let_def keeps_initialized_def)
qed

lemma DeadBlock_ctor_blocks:
  "DeadBlock_ctor D s d Blk = Some s' \<Longrightarrow>
   blocks s' = (blocks s)(addr_B d := (blocks s Blk)\<lparr>IsDead := True\<rparr>)"
  by (auto simp: DeadBlock_ctor_def Let_def Block_copy_dead split: option.splits)

lemma step_flags:
  assumes "callbacks_keep (keeps_flags b) D" and "step D s x = Some s'" and "\<not> constructs x b"
  shows "IsStatic (blocks s' b) = IsStatic (blocks s b) \<and>
         IsExtern (blocks s' b) = IsExtern (blocks s b) \<and>
         IsDead (blocks s' b) = IsDead (blocks s b)"
proof (cases x)
  case (InvokeCtor c)
  with assms(2) invokeCtor_flags [OF assms(1), of s c] show ?thesis by auto
next
  case (InvokeDtor c)
  with assms(2) invokeDtor_flags [OF assms(1), of s c] show ?thesis by auto
next
  case (Relocate d Blk)
  with assms(2,3) show ?thesis by (auto dest!: DeadBlock_ctor_blocks)
qed (use assms(2) in \<open>auto simp: addPointer_def removePointer_def replacePointer_def
      DeadBlock_free_def Let_def split: if_splits\<close>)

lemma step_initialized:
  assumes "callbacks_keep (keeps_initialized b) D" and "step D s x = Some s'"
    and "\<not> constructs x b"
  shows "IsInitialized (blocks s' b) =
           (case lifecycle b x of None \<Rightarrow> IsInitialized (blocks s b) | Some v \<Rightarrow> v)"
proof (cases x)
  case (InvokeCtor c)
  with assms(2) invokeCtor_initialized [OF assms(1), of s c] show ?thesis by auto
next
  case (InvokeDtor c)
  with assms(2) invokeDtor_initialized [OF assms(1), of s c] show ?thesis by auto
next
  case (Relocate d Blk)
  with assms(2,3) show ?thesis by (auto dest!: DeadBlock_ctor_blocks)
qed (use assms(2) in \<open>auto simp: addPointer_def removePointer_def replacePointer_def
      DeadBlock_free_def Let_def split: if_splits\<close>)

lemma step_dead:
  assumes "callbacks_keep (keeps_flags b) D" and "step D s x = Some s'"
    and "IsDead (blocks s b)"
  shows "IsDead (blocks s' b)"
proof (cases "constructs x b")
  case True
  then obtain d Blk where "x = Relocate d Blk" and "addr_B d = b"
    by (cases x) auto
  with assms(2) show ?thesis by (auto dest!: DeadBlock_ctor_blocks)
next
  case False
  with step_flags [OF assms(1,2)] assms(3) show ?thesis by simp
qed

lemma run_flags:
  "callbacks_keep (keeps_flags b) D \<Longrightarrow> run D s ops = Some s' \<Longrightarrow>
   \<forall>x\<in>set ops. \<not> constructs x b \<Longrightarrow>
   IsStatic (blocks s' b) = IsStatic (blocks s b) \<and>
   IsExtern (blocks s' b) = IsExtern (blocks s b) \<and>
   IsDead (blocks s' b) = IsDead (blocks s b)"
proof (induction ops arbitrary: s)
  case Nil
  then show ?case by simp
next
  case (Cons x ops)
  from Cons.prems(2) obtain s1 where s1: "step D s x = Some s1" and r: "run D s1 ops = Some s'"
    by (auto split: option.splits)
  from Cons.prems(3) have nx: "\<not> constructs x b" and rest: "\<forall>y\<in>set ops. \<not> constructs y b"
    by simp_all
  show ?case
    using Cons.IH [OF Cons.prems(1) r rest] step_flags [OF Cons.prems(1) s1 nx] by simp
qed

lemma run_initialized:
  "callbacks_keep (keeps_initialized b) D \<Longrightarrow> run D s ops = Some s' \<Longrightarrow>
   \<forall>x\<in>set ops. \<not> constructs x b \<Longrightarrow>
   IsInitialized (blocks s' b) =
     (case last_lifecycle b ops of None \<Rightarrow> IsInitialized (blocks s b) | Some v \<Rightarrow> v)"
proof (induction ops arbitrary: s)
  case Nil
  then show ?case by simp
next
  case (Cons x ops)
  from Cons.prems(2) obtain s1 where s1: "step D s x = Some s1" and r: "run D s1 ops = Some s'"
    by (auto split: option.splits)
  from Cons.prems(3) have nx: "\<not> constructs x b" and rest: "\<forall>y\<in>set ops. \<not> constructs y b"
    by simp_all
  show ?case
    using Cons.IH [OF Cons.prems(1) r rest] step_initialized [OF Cons.prems(1) s1 nx]
    by (simp split: option.splits)
qed

lemma run_dead:
  "callbacks_keep (keeps_flags b) D \<Longrightarrow> run D s ops = Some s' \<Longrightarrow> IsDead (blocks s b) \<Longrightarrow>
   IsDead (blocks s' b)"
proof (induction ops arbitrary: s)
  case Nil
  then show ?case by simp
next
  case (Cons x ops)
  from Cons.prems(2) obtain s1 where s1: "step D s x = Some s1" and r: "run D s1 ops = Some s'"
    by (auto split: option.splits)
  show ?case
    using Cons.IH [OF Cons.prems(1) r] step_dead [OF Cons.prems(1) s1 Cons.prems(3)] by simp
qed

lemma example_callbacks:
  "callbacks_keep (keeps_flags b) example_descs \<and>
   callbacks_keep (keeps_initialized b) example_descs"
  by (simp add: callbacks_keep_def keeps_flags_def keeps_initialized_def example_descs_def
      example_desc_def example_ctor_def example_dtor_def)

lemma example_run_returns: "\<exists>s'. run example_descs example_state example_run = Some s'"
  by (simp add: example_run_def DeadBlock_ctor_def Let_def transfer_pointers.simps
      invokeCtor_def addPointer_def example_state_def example_descs_def example_desc_def
      example_ctor_def Block_ctor_def Block_ctor_nodecl_def)

text \<open>
  C4: \<open>isInitialized\<close> is true after \<open>invokeCtor\<close> and false after a following \<open>invokeDtor\<close>,
  whatever the callbacks do; a block is not initialized by any of its constructors; and
  after any sequence of operations that does not build a new header at the block, with
  callbacks that do not construct or destroy the block themselves, the flag is what the
  last construct or destroy call on the block left: true exactly between a construct call
  and the next destroy call.
\<close>

theorem isInitialized_lifecycle:
  "isInitialized (invokeCtor D s this) this \<and>
   \<not> isInitialized (invokeDtor D (invokeCtor D s this) this) this \<and>
   \<not> IsInitialized (Block_ctor i desc st ex) \<and>
   \<not> IsInitialized (Block_ctor_nodecl desc st ex) \<and>
   \<not> IsInitialized (Block_ctor_dead desc ex st dd) \<and>
   (callbacks_keep (keeps_initialized this) D \<longrightarrow> run D s ops = Some s' \<longrightarrow>
      (\<forall>x\<in>set ops. \<not> constructs x this) \<longrightarrow>
      isInitialized s' this =
        (case last_lifecycle this ops of None \<Rightarrow> isInitialized s this | Some v \<Rightarrow> v))"
  using run_initialized [of this D s ops s'] unfolding isInitialized_def
  by (simp add: invokeCtor_def invokeDtor_def Let_def Block_ctor_def Block_ctor_nodecl_def
      Block_ctor_dead_def)

text \<open>
  Construct, attach, destroy and construct on the block at 64, construct and destroy on
  the block at 256, whose descriptor has both callbacks.
\<close>

theorem isInitialized_lifecycle_witness:
  "isInitialized (invokeCtor example_descs example_state 256) 256 \<and>
   \<not> isInitialized (invokeDtor example_descs (invokeCtor example_descs example_state 256) 256) 256 \<and>
   \<not> isInitialized example_state 64 \<and>
   (\<exists>s'. run example_descs example_state example_lifecycle = Some s' \<and>
      isInitialized s' 64 \<and> \<not> isInitialized s' 256)"
proof -
  let ?D = example_descs
  let ?S = "invokeDtor ?D (invokeCtor ?D (invokeDtor ?D (invokeCtor ?D
              (addPointer (invokeCtor ?D example_state 64) 64 1) 256) 64) 64) 256"
  have r: "run ?D example_state example_lifecycle = Some ?S"
    by (simp add: example_lifecycle_def)
  have nc: "\<forall>x\<in>set example_lifecycle. \<not> constructs x b" for b
    by (simp add: example_lifecycle_def)
  have l1: "last_lifecycle 64 example_lifecycle = Some True"
    and l2: "last_lifecycle 256 example_lifecycle = Some False"
    by (simp_all add: example_lifecycle_def)
  have cb: "callbacks_keep (keeps_initialized b) ?D" for b
    using example_callbacks by simp
  note t1 = isInitialized_lifecycle [where D = ?D and s = example_state and this = 64
      and ops = example_lifecycle and s' = ?S and i = None and desc = 0 and st = False
      and ex = False and dd = False]
  note t2 = isInitialized_lifecycle [where D = ?D and s = example_state and this = 256
      and ops = example_lifecycle and s' = ?S and i = None and desc = 0 and st = False
      and ex = False and dd = False]
  have "isInitialized ?S 64" using t1 r nc l1 cb by simp
  moreover have "\<not> isInitialized ?S 256" using t2 r nc l2 cb by simp
  moreover have "\<not> isInitialized example_state 64"
    by (simp add: isInitialized_def example_state_def Block_ctor_def)
  ultimately show ?thesis using t2 r by simp
qed

text \<open>
  C9: every constructor sets \<open>IsStatic\<close> and \<open>IsExtern\<close> from its arguments; the public
  constructors leave \<open>IsDead\<close> false and the protected one sets it, whatever its last
  argument. With callbacks that leave the flags of the block alone, no sequence of
  operations changes the three flags of a block whose header it does not build anew, and
  none clears a dead flag that is set. Relocation builds the embedded block dead, with
  the storage-class flags of the source block.
\<close>

theorem flags_fixed:
  "IsStatic (Block_ctor i desc st ex) = st \<and> IsExtern (Block_ctor i desc st ex) = ex \<and>
   \<not> IsDead (Block_ctor i desc st ex) \<and>
   IsStatic (Block_ctor_nodecl desc st ex) = st \<and> IsExtern (Block_ctor_nodecl desc st ex) = ex \<and>
   \<not> IsDead (Block_ctor_nodecl desc st ex) \<and>
   IsStatic (Block_ctor_dead desc ex st dd) = st \<and> IsExtern (Block_ctor_dead desc ex st dd) = ex \<and>
   IsDead (Block_ctor_dead desc ex st dd) \<and>
   (callbacks_keep (keeps_flags b) D \<longrightarrow> run D s ops = Some s' \<longrightarrow>
      (\<forall>x\<in>set ops. \<not> constructs x b) \<longrightarrow>
      isStatic s' b = isStatic s b \<and> isExtern s' b = isExtern s b \<and>
      IsDead (blocks s' b) = IsDead (blocks s b)) \<and>
   (callbacks_keep (keeps_flags b) D \<longrightarrow> run D s ops = Some s' \<longrightarrow> IsDead (blocks s b) \<longrightarrow>
      IsDead (blocks s' b)) \<and>
   (DeadBlock_ctor D s d Blk = Some s'' \<longrightarrow>
      IsDead (blocks s'' (addr_B d)) \<and> isStatic s'' (addr_B d) = isStatic s Blk \<and>
      isExtern s'' (addr_B d) = isExtern s Blk)"
  using run_flags [of b D s ops s'] run_dead [of b D s ops s']
    DeadBlock_ctor_blocks [of D s d Blk s'']
  by (simp add: isStatic_def isExtern_def Block_ctor_def Block_ctor_nodecl_def Block_ctor_dead_def)

text \<open>
  A run that constructs, references, relocates and releases the block at 64 and
  constructs and destroys the static block at 256, and the relocation of the block at 64
  of the state with three references.
\<close>

theorem flags_fixed_witness:
  "(\<exists>s'. run example_descs example_state example_run = Some s' \<and>
      isStatic s' 64 = isStatic example_state 64 \<and> isExtern s' 64 = isExtern example_state 64 \<and>
      \<not> IsDead (blocks s' 64) \<and> isStatic s' 256 \<and> \<not> isExtern s' 256) \<and>
   (\<exists>s1. DeadBlock_ctor example_descs example_chain_state 1000 64 = Some s1 \<and>
      \<not> IsDead (blocks example_chain_state 64) \<and> IsDead (blocks s1 (addr_B 1000)) \<and>
      isStatic s1 (addr_B 1000) = isStatic example_chain_state 64 \<and>
      IsDead (blocks (DeadBlock_free
                (invokeDtor example_descs (removePointer s1 (addr_B 1000) 3) (addr_B 1000)) 1000)
         (addr_B 1000)))"
proof -
  let ?D = example_descs
  have cb: "callbacks_keep (keeps_flags b) ?D" for b
    using example_callbacks by simp
  obtain S where S: "run ?D example_state example_run = Some S"
    using example_run_returns by blast
  have nc: "\<forall>x\<in>set example_run. \<not> constructs x 64"
    and nc': "\<forall>x\<in>set example_run. \<not> constructs x 256"
    by (simp_all add: example_run_def addr_B_def offsetof_B_def)
  have nd: "\<not> IsDead (blocks example_state 64)"
    and st: "isStatic example_state 256" and ne: "\<not> isExtern example_state 256"
    by (simp_all add: example_state_def Block_ctor_def Block_ctor_nodecl_def
        isStatic_def isExtern_def)
  note t = flags_fixed [where D = ?D and s = example_state and ops = example_run and s' = S
      and b = 64 and i = None and desc = 0 and st = False and ex = False and dd = False
      and d = 0 and Blk = 0 and s'' = example_state]
  note t' = flags_fixed [where D = ?D and s = example_state and ops = example_run and s' = S
      and b = 256 and i = None and desc = 0 and st = False and ex = False and dd = False
      and d = 0 and Blk = 0 and s'' = example_state]
  have first: "isStatic S 64 = isStatic example_state 64 \<and>
      isExtern S 64 = isExtern example_state 64 \<and> \<not> IsDead (blocks S 64)"
    using t S nc nd cb by simp
  have second: "isStatic S 256 \<and> \<not> isExtern S 256"
    using t' S nc' st ne cb by simp
  obtain s1 where s1: "DeadBlock_ctor ?D example_chain_state 1000 64 = Some s1"
    using DeadBlock_ctor_returns [OF example_chain] by blast
  let ?S2 = "DeadBlock_free (invokeDtor ?D (removePointer s1 (addr_B 1000) 3) (addr_B 1000)) 1000"
  have r2: "run ?D s1 [RemovePointer (addr_B 1000) 3, InvokeDtor (addr_B 1000), Free 1000]
              = Some ?S2"
    by simp
  note u = flags_fixed [where D = ?D and s = example_chain_state and d = 1000 and Blk = 64
      and s'' = s1 and ops = "[]" and s' = example_chain_state and b = 64
      and i = None and desc = 0 and st = False and ex = False and dd = False]
  note v = flags_fixed [where D = ?D and s = s1
      and ops = "[RemovePointer (addr_B 1000) 3, InvokeDtor (addr_B 1000), Free 1000]"
      and s' = ?S2 and b = "addr_B 1000" and d = 0 and Blk = 0 and s'' = example_state
      and i = None and desc = 0 and st = False and ex = False and dd = False]
  have d1: "IsDead (blocks s1 (addr_B 1000)) \<and>
            isStatic s1 (addr_B 1000) = isStatic example_chain_state 64"
    using u s1 by simp
  then have d2: "IsDead (blocks ?S2 (addr_B 1000))" using v r2 cb by simp
  have nd2: "\<not> IsDead (blocks example_chain_state 64)"
    by (simp add: example_chain_frame example_state_def Block_ctor_def)
  show ?thesis using S first second s1 d1 d2 nd2 by blast
qed

end
